theory Spec2Isabelle
  imports Main "HOL-Library.Word"
begin

section \<open>The device-tree engine of depthcharge (src/base/device\_tree.c)\<close>

text \<open>
  The development follows \<^verbatim>\<open>src/base/device_tree.c\<close>. Memory is a sequence of
  bytes. A C string is the list of the characters before its terminating NUL, so
  \<^verbatim>\<open>strcmp(a, b) == 0\<close> is equality of the two lists. A pointer into a tree is the
  path of child indices that leads to the node; a data pointer together with a byte
  count is the list of bytes found there. Offsets and sizes are natural numbers; where
  the code stores them in a \<^verbatim>\<open>uint32_t\<close> the reduction modulo \<open>2 ^ 32\<close> is written
  out.
\<close>

subsection \<open>Data model\<close>

type_synonym byte = "8 word"

text \<open>\<^verbatim>\<open>FdtProperty\<close>: name, data pointer and size in bytes.\<close>

record FdtProperty =
  prop_name :: string
  prop_data :: "byte list"
  prop_size :: nat

text \<open>
  \<^verbatim>\<open>DeviceTreeNode\<close>: the name and the two intrusive lists, in list order.
\<close>

datatype DeviceTreeNode =
  Node (name: string) (properties: "FdtProperty list") (children: "DeviceTreeNode list")

text \<open>
  Modelled from the spec: \<^verbatim>\<open>list_insert_after\<close> is declared in base/list.h, which
  is absent. The spec describes the list as ordered with forward iteration, and an
  insertion after the list head as a prepend. A position is the number of elements in
  front of it: \<open>0\<close> is the head sentinel, \<open>k\<close> the \<open>k\<close>-th element.
\<close>

definition list_insert_after :: "'a \<Rightarrow> nat \<Rightarrow> 'a list \<Rightarrow> 'a list" where
  "list_insert_after x after xs = take after xs @ x # drop after xs"

text \<open>
  \<^verbatim>\<open>alloc_node\<close> and \<^verbatim>\<open>alloc_prop\<close> hand out a zeroed record, from the static
  pool or from \<^verbatim>\<open>xzalloc\<close>; the two sources cannot be told apart by the caller.
\<close>

definition alloc_node :: DeviceTreeNode where
  "alloc_node = Node [] [] []"

definition alloc_prop :: FdtProperty where
  "alloc_prop = \<lparr>prop_name = [], prop_data = [], prop_size = 0\<rparr>"

subsection \<open>Big-endian integers in memory\<close>

text \<open>A byte of a finite memory image; past its end the image reads as zero.\<close>

definition byte_at :: "byte list \<Rightarrow> nat \<Rightarrow> byte" where
  "byte_at mem i = (if i < length mem then mem ! i else 0)"

text \<open>\<^verbatim>\<open>be32toh\<close> of the 32-bit word stored at a byte offset.\<close>

definition be32toh :: "byte list \<Rightarrow> nat \<Rightarrow> nat" where
  "be32toh mem off =
     unat (byte_at mem off) * 2 ^ 24 + unat (byte_at mem (off + 1)) * 2 ^ 16
     + unat (byte_at mem (off + 2)) * 2 ^ 8 + unat (byte_at mem (off + 3))"

subsection \<open>Looking up and adding properties\<close>

text \<open>
  \<^verbatim>\<open>dt_find_bin_prop\<close>: the outputs are set to NULL and 0, then the first property
  with the name overwrites them. A NULL data pointer is \<open>None\<close>.
\<close>

fun find_bin_prop_scan ::
  "FdtProperty list \<Rightarrow> string \<Rightarrow> byte list option \<times> nat \<Rightarrow> byte list option \<times> nat" where
  "find_bin_prop_scan [] nm out = out"
| "find_bin_prop_scan (prop # rest) nm out =
     (if prop_name prop = nm then (Some (prop_data prop), prop_size prop)
      else find_bin_prop_scan rest nm out)"

definition dt_find_bin_prop :: "DeviceTreeNode \<Rightarrow> string \<Rightarrow> byte list option \<times> nat" where
  "dt_find_bin_prop node nm = find_bin_prop_scan (properties node) nm (None, 0)"

definition dt_find_string_prop :: "DeviceTreeNode \<Rightarrow> string \<Rightarrow> byte list option" where
  "dt_find_string_prop node nm = (let (content, size) = dt_find_bin_prop node nm in content)"

text \<open>
  \<^verbatim>\<open>dt_add_bin_prop\<close>: the first property with the name is updated in place;
  otherwise a fresh property is linked right after the list head. The
  \<^verbatim>\<open>size_t\<close> argument is assigned to the 32-bit \<^verbatim>\<open>size\<close> field of the
  property, which keeps it modulo \<open>2 ^ 32\<close>.
\<close>

fun add_bin_prop_scan ::
  "FdtProperty list \<Rightarrow> string \<Rightarrow> byte list \<Rightarrow> nat \<Rightarrow> FdtProperty list option" where
  "add_bin_prop_scan [] nm dat sz = None"
| "add_bin_prop_scan (prop # rest) nm dat sz =
     (if prop_name prop = nm
      then Some (prop\<lparr>prop_data := dat, prop_size := sz mod 2 ^ 32\<rparr> # rest)
      else map_option ((#) prop) (add_bin_prop_scan rest nm dat sz))"

definition dt_add_bin_prop ::
  "DeviceTreeNode \<Rightarrow> string \<Rightarrow> byte list \<Rightarrow> nat \<Rightarrow> DeviceTreeNode" where
  "dt_add_bin_prop node nm dat sz =
     (case add_bin_prop_scan (properties node) nm dat sz of
        Some props \<Rightarrow> Node (name node) props (children node)
      | None \<Rightarrow>
          let prop = alloc_prop;
              props = list_insert_after prop 0 (properties node);
              props = props[0 := (props ! 0)\<lparr>prop_name := nm, prop_data := dat,
                                              prop_size := sz mod 2 ^ 32\<rparr>]
          in Node (name node) props (children node))"

subsection \<open>Walking the tree\<close>

text \<open>
  \<^verbatim>\<open>dt_read_cell_props\<close>: every property of the node is visited; a non-NULL
  output cell (\<open>Some\<close>) is overwritten by each property with the matching name.
\<close>

definition dt_read_cell_props ::
  "DeviceTreeNode \<Rightarrow> nat option \<Rightarrow> nat option \<Rightarrow> nat option \<times> nat option" where
  "dt_read_cell_props node addrcp sizecp =
     fold (\<lambda>prop (addrcp, sizecp).
            (if addrcp \<noteq> None \<and> ''#address-cells'' = prop_name prop
             then Some (be32toh (prop_data prop) 0) else addrcp,
             if sizecp \<noteq> None \<and> ''#size-cells'' = prop_name prop
             then Some (be32toh (prop_data prop) 0) else sizecp))
          (properties node) (addrcp, sizecp)"

text \<open>The search loop of \<^verbatim>\<open>dt_find_node\<close>: the index of the first child with the name.\<close>

fun find_node_scan :: "DeviceTreeNode list \<Rightarrow> string \<Rightarrow> nat option" where
  "find_node_scan [] nm = None"
| "find_node_scan (node # rest) nm =
     (if name node = nm then Some 0 else map_option Suc (find_node_scan rest nm))"

text \<open>
  \<^verbatim>\<open>dt_find_node\<close>. The result is the updated start node, the path of child indices
  to the node returned (\<open>None\<close> for NULL) and the two cell outputs. \<^verbatim>\<open>strdup\<close> is a
  parameter: it yields \<open>None\<close> when the allocation fails. A created node is linked
  right after the head of the parent's child list before the walk descends into it.
\<close>

fun dt_find_node ::
  "(string \<Rightarrow> string option) \<Rightarrow> DeviceTreeNode \<Rightarrow> string list \<Rightarrow> nat option \<Rightarrow> nat option \<Rightarrow> bool
   \<Rightarrow> DeviceTreeNode \<times> nat list option \<times> nat option \<times> nat option" where
  "dt_find_node strdup parent [] addrcp sizecp create =
     (let (addrcp, sizecp) = dt_read_cell_props parent addrcp sizecp
      in (parent, Some [], addrcp, sizecp))"
| "dt_find_node strdup parent (component # path) addrcp sizecp create =
     (let (addrcp, sizecp) = dt_read_cell_props parent addrcp sizecp
      in case find_node_scan (children parent) component of
           Some i \<Rightarrow>
             (let (found, res, addrcp, sizecp) =
                    dt_find_node strdup (children parent ! i) path addrcp sizecp create
              in (Node (name parent) (properties parent) ((children parent)[i := found]),
                  map_option ((#) i) res, addrcp, sizecp))
         | None \<Rightarrow>
             if \<not> create then (parent, None, addrcp, sizecp)
             else (case strdup component of
                     None \<Rightarrow> (parent, None, addrcp, sizecp)
                   | Some nm \<Rightarrow>
                       (let found = Node nm (properties alloc_node) (children alloc_node);
                            linked = list_insert_after found 0 (children parent);
                            (found, res, addrcp, sizecp) =
                              dt_find_node strdup found path addrcp sizecp create
                        in (Node (name parent) (properties parent) (linked[0 := found]),
                            map_option ((#) 0) res, addrcp, sizecp))))"

text \<open>The node a path of child indices points to, and the names met on the way.\<close>

fun node_at :: "DeviceTreeNode \<Rightarrow> nat list \<Rightarrow> DeviceTreeNode option" where
  "node_at node [] = Some node"
| "node_at node (i # idxs) =
     (if i < length (children node) then node_at (children node ! i) idxs else None)"

fun path_names :: "DeviceTreeNode \<Rightarrow> nat list \<Rightarrow> string list option" where
  "path_names node [] = Some []"
| "path_names node (i # idxs) =
     (if i < length (children node)
      then map_option ((#) (name (children node ! i))) (path_names (children node ! i) idxs)
      else None)"

text \<open>The chain of fresh nodes that a walk through missing components leaves behind.\<close>

fun new_chain :: "string \<Rightarrow> string list \<Rightarrow> DeviceTreeNode" where
  "new_chain nm [] = Node nm [] []"
| "new_chain nm (component # path) = Node nm [] [new_chain component path]"

subsection \<open>Compatible strings\<close>

text \<open>\<^verbatim>\<open>strncmp(s, str, n) == 0\<close> and \<^verbatim>\<open>strnlen(str, n)\<close> on a byte window.\<close>

fun strncmp_eq :: "string \<Rightarrow> byte list \<Rightarrow> nat \<Rightarrow> bool" where
  "strncmp_eq s str 0 = True"
| "strncmp_eq [] str (Suc n) = (byte_at str 0 = 0)"
| "strncmp_eq (c # s) str (Suc n) = (of_char c = byte_at str 0 \<and> strncmp_eq s (tl str) n)"

definition strnlen :: "byte list \<Rightarrow> nat \<Rightarrow> nat" where
  "strnlen str n = length (takeWhile (\<lambda>b. b \<noteq> 0) (take n str))"

text \<open>The \<^verbatim>\<open>while (bytes > 0)\<close> loop of \<^verbatim>\<open>dt_check_compat_match\<close>.\<close>

function compat_scan :: "string \<Rightarrow> byte list \<Rightarrow> nat \<Rightarrow> bool" where
  "compat_scan compat_str str bytes =
     (if bytes > 0 then
        (if strncmp_eq compat_str str bytes then True
         else let len = strnlen str bytes + 1
              in if bytes \<le> len then False
                 else compat_scan compat_str (drop len str) (bytes - len))
      else False)"
  by pat_completeness auto
termination
  by (relation "measure (\<lambda>(compat_str, str, bytes). bytes)") auto

declare compat_scan.simps [simp del]

text \<open>Only the first property named \<^verbatim>\<open>compatible\<close> is looked at.\<close>

fun check_compat_scan :: "FdtProperty list \<Rightarrow> string \<Rightarrow> bool" where
  "check_compat_scan [] compat_str = False"
| "check_compat_scan (prop # rest) compat_str =
     (if ''compatible'' = prop_name prop
      then compat_scan compat_str (prop_data prop) (prop_size prop)
      else check_compat_scan rest compat_str)"

definition dt_check_compat_match :: "DeviceTreeNode \<Rightarrow> string \<Rightarrow> bool" where
  "dt_check_compat_match node compat_str = check_compat_scan (properties node) compat_str"

text \<open>\<^verbatim>\<open>dt_find_compat\<close>: the node itself, then each child's subtree in list order.\<close>

fun dt_find_compat :: "DeviceTreeNode \<Rightarrow> string \<Rightarrow> nat list option"
  and find_compat_scan :: "DeviceTreeNode list \<Rightarrow> nat \<Rightarrow> string \<Rightarrow> nat list option" where
  "dt_find_compat (Node nm props chs) compat_str =
     (if dt_check_compat_match (Node nm props chs) compat_str then Some []
      else find_compat_scan chs 0 compat_str)"
| "find_compat_scan [] i compat_str = None"
| "find_compat_scan (child # rest) i compat_str =
     (case dt_find_compat child compat_str of
        Some found \<Rightarrow> Some (i # found)
      | None \<Rightarrow> find_compat_scan rest (Suc i) compat_str)"

text \<open>
  The claim's words: the nodes of a subtree in depth-first pre-order, each with the
  path that leads to it, and the entries of a NUL-separated list. An entry is paired
  with \<open>True\<close> when its NUL is inside the value; the last entry may lack it.
\<close>

fun preorder :: "DeviceTreeNode \<Rightarrow> (nat list \<times> DeviceTreeNode) list"
  and preorder_list :: "DeviceTreeNode list \<Rightarrow> nat \<Rightarrow> (nat list \<times> DeviceTreeNode) list" where
  "preorder (Node nm props chs) = ([], Node nm props chs) # preorder_list chs 0"
| "preorder_list [] i = []"
| "preorder_list (child # rest) i =
     map (\<lambda>(idxs, n). (i # idxs, n)) (preorder child) @ preorder_list rest (Suc i)"

function nul_entries :: "byte list \<Rightarrow> (byte list \<times> bool) list" where
  "nul_entries [] = []"
| "nul_entries (b # bs) =
     (let entry = takeWhile (\<lambda>x. x \<noteq> 0) (b # bs)
      in if length entry < length (b # bs)
         then (entry, True) # nul_entries (drop (length entry + 1) (b # bs))
         else [(entry, False)])"
  by pat_completeness auto
termination
  by (relation "measure length") auto

definition nul_free :: "string \<Rightarrow> bool" where
  "nul_free s = list_all (\<lambda>c. (of_char c :: byte) \<noteq> 0) s"

definition entry_matches :: "string \<Rightarrow> byte list \<times> bool \<Rightarrow> bool" where
  "entry_matches s e =
     (if snd e then fst e = map of_char s
      else fst e = take (length (fst e)) (map of_char s))"

definition compat_entry_match :: "DeviceTreeNode \<Rightarrow> string \<Rightarrow> bool" where
  "compat_entry_match node s =
     (case find (\<lambda>p. prop_name p = ''compatible'') (properties node) of
        None \<Rightarrow> False
      | Some p \<Rightarrow> list_ex (entry_matches s) (nul_entries (take (prop_size p) (prop_data p))))"

text \<open>Every property of the subtree has at least \<open>prop_size\<close> bytes behind its data pointer.\<close>

fun data_present :: "DeviceTreeNode \<Rightarrow> bool" where
  "data_present (Node nm props chs) =
     (list_all (\<lambda>p. prop_size p \<le> length (prop_data p)) props \<and> list_all data_present chs)"

subsection \<open>The reg property\<close>

text \<open>\<^verbatim>\<open>htobe32\<close>: the four bytes of a 32-bit value, most significant first.\<close>

definition htobe32 :: "nat \<Rightarrow> byte list" where
  "htobe32 v = [of_nat (v div 2 ^ 24), of_nat (v div 2 ^ 16), of_nat (v div 2 ^ 8), of_nat v]"

text \<open>\<^verbatim>\<open>dt_write_int\<close> writes \<open>len\<close> bytes at \<open>dest\<close>, the last byte first.\<close>

fun dt_write_int :: "byte list \<Rightarrow> nat \<Rightarrow> 64 word \<Rightarrow> nat \<Rightarrow> byte list" where
  "dt_write_int mem dest src 0 = mem"
| "dt_write_int mem dest src (Suc len) =
     dt_write_int (mem[dest + len := ucast src]) dest (drop_bit 8 src) len"

text \<open>
  \<^verbatim>\<open>dt_add_reg_prop\<close>. The two cell counts are \<^verbatim>\<open>uint32_t\<close> and their sum
  wraps modulo \<open>2 ^ 32\<close>; \<^verbatim>\<open>count\<close> is an \<^verbatim>\<open>int\<close>, read with
  \<open>sint\<close>. The length is computed in \<^verbatim>\<open>size_t\<close>, taken as 64 bits wide: the
  sum is widened, \<^verbatim>\<open>count\<close> is converted (a negative one becomes
  \<open>2 ^ 64 + count\<close>) and the product is kept modulo \<open>2 ^ 64\<close>. The iteration
  runs once for each index from 0 below \<^verbatim>\<open>count\<close>, not at all for a
  \<^verbatim>\<open>count\<close> below one.

  \<^verbatim>\<open>xmalloc\<close> does not return when it cannot provide the block; the model
  takes it to succeed. The block is uninitialised in C; the iteration writes every
  byte of it, and the model starts it as zeroes. A run that reads past the end of
  \<^verbatim>\<open>addrs\<close> or \<^verbatim>\<open>sizes\<close>, or that writes past the end of the block, is
  undefined in C: the result is \<open>None\<close>.
\<close>

definition dt_add_reg_prop ::
  "DeviceTreeNode \<Rightarrow> 64 word list \<Rightarrow> 64 word list \<Rightarrow> 32 word \<Rightarrow> 32 word \<Rightarrow> 32 word \<Rightarrow>
     DeviceTreeNode option" where
  "dt_add_reg_prop node addrs sizes count addr_cells size_cells =
     (let len = unat (addr_cells + size_cells) * 4 * nat (sint count mod 2 ^ 64) mod 2 ^ 64;
          data = replicate len 0;
          cur = 0;
          entries = nat (sint count)
      in if length addrs < entries \<or> length sizes < entries \<or>
            len < entries * (unat addr_cells * 4 + unat size_cells * 4)
         then None
         else
           let (data, cur) =
                 fold (\<lambda>i (data, cur).
                        let data = dt_write_int data cur (addrs ! i) (unat addr_cells * 4);
                            cur = cur + unat addr_cells * 4;
                            data = dt_write_int data cur (sizes ! i) (unat size_cells * 4);
                            cur = cur + unat size_cells * 4
                        in (data, cur))
                      [0..<entries] (data, cur)
           in Some (dt_add_bin_prop node ''reg'' data len))"

text \<open>
  The claim's words: a value as \<open>n\<close> big-endian 32-bit words, the most significant
  word first.
\<close>

definition cell_words :: "nat \<Rightarrow> 64 word \<Rightarrow> byte list" where
  "cell_words n v =
     concat (map (\<lambda>k. htobe32 ((unat v div 2 ^ (32 * (n - 1 - k))) mod 2 ^ 32)) [0..<n])"

subsection \<open>Reading a flattened tree\<close>

text \<open>
  Modelled from the spec: the token tags and the layout of \<^verbatim>\<open>FdtHeader\<close> are
  declared in base/device\_tree.h, which is absent. The spec names the tokens
  (begin-node, property, end-node, end) and the header fields (total size, offsets and
  sizes of the structure block and the strings block, offset of the reserve map); the
  values are those of the flattened-device-tree format.
\<close>

definition TokenBeginNode :: nat where "TokenBeginNode = 1"
definition TokenEndNode :: nat where "TokenEndNode = 2"
definition TokenProperty :: nat where "TokenProperty = 3"
definition TokenEnd :: nat where "TokenEnd = 9"

definition totalsize_field :: nat where "totalsize_field = 4"
definition structure_offset_field :: nat where "structure_offset_field = 8"
definition strings_offset_field :: nat where "strings_offset_field = 12"
definition reserve_map_offset_field :: nat where "reserve_map_offset_field = 16"
definition strings_size_field :: nat where "strings_size_field = 32"
definition structure_size_field :: nat where "structure_size_field = 36"
definition sizeof_FdtHeader :: nat where "sizeof_FdtHeader = 40"

text \<open>
  The blob is a finite byte sequence and offsets into it are natural numbers. The code
  computes them as \<^verbatim>\<open>int\<close> and \<^verbatim>\<open>uint32_t\<close>; the two agree while every
  offset stays below \<open>2 ^ 31\<close>, which holds for a blob shorter than that whose
  tokens lie inside it. The code checks no bounds; past the end of the blob the model
  reads zero bytes, so that no token is found there.
\<close>

definition size32 :: "nat \<Rightarrow> nat" where
  "size32 val = (val + 4 - 1) div 4"

text \<open>\<^verbatim>\<open>strlen\<close> of, and the C string at, a byte offset.\<close>

definition strlen_at :: "byte list \<Rightarrow> nat \<Rightarrow> nat" where
  "strlen_at mem off = length (takeWhile (\<lambda>b. b \<noteq> 0) (drop off mem))"

definition string_at :: "byte list \<Rightarrow> nat \<Rightarrow> string" where
  "string_at mem off = map (\<lambda>b. char_of (unat b)) (takeWhile (\<lambda>b. b \<noteq> 0) (drop off mem))"

text \<open>
  \<^verbatim>\<open>fdt_next_property\<close>: the bytes consumed and the property written through
  \<^verbatim>\<open>prop\<close> (\<open>None\<close>: nothing written). The name pointer is the string at the
  name offset, the data pointer the \<open>size\<close> bytes right after the three words.
\<close>

definition fdt_next_property :: "byte list \<Rightarrow> nat \<Rightarrow> nat \<times> FdtProperty option" where
  "fdt_next_property blob offset =
     (if be32toh blob offset \<noteq> TokenProperty then (0, None)
      else let size = be32toh blob (offset + 4);
               name_offset = be32toh blob (offset + 8);
               name_offset = (name_offset + be32toh blob strings_offset_field) mod 2 ^ 32;
               prop = \<lparr>prop_name = string_at blob name_offset,
                       prop_data = take size (drop (offset + 12) blob),
                       prop_size = size\<rparr>
           in ((3 + size32 size) * 4, Some prop))"

definition fdt_node_name :: "byte list \<Rightarrow> nat \<Rightarrow> nat \<times> string option" where
  "fdt_node_name blob offset =
     (if be32toh blob offset \<noteq> TokenBeginNode then (0, None)
      else (size32 (strlen_at blob (offset + 4) + 1) * 4 + 4, Some (string_at blob (offset + 4))))"

text \<open>\<^verbatim>\<open>fdt_skip_node\<close> with its property iteration and its child iteration.\<close>

function skip_props :: "byte list \<Rightarrow> nat \<Rightarrow> nat" where
  "skip_props blob offset =
     (let size = fst (fdt_next_property blob offset)
      in if size \<noteq> 0 then skip_props blob (offset + size) else offset)"
  by pat_completeness auto
termination
proof (relation "measure (\<lambda>(blob, offset). length blob - offset)")
  fix blob :: "byte list" and offset size :: nat
  assume "size = fst (fdt_next_property blob offset)" and "size \<noteq> 0"
  then have "be32toh blob offset \<noteq> 0"
    by (auto simp: fdt_next_property_def TokenProperty_def split: if_splits)
  then have "offset < length blob"
    by (rule contrapos_np) (simp add: be32toh_def byte_at_def)
  with \<open>size \<noteq> 0\<close> show "((blob, offset + size), (blob, offset)) \<in> measure (\<lambda>(blob, offset). length blob - offset)"
    by simp
qed simp

declare skip_props.simps [simp del]

function fdt_skip_node :: "byte list \<Rightarrow> nat \<Rightarrow> nat"
  and skip_children :: "byte list \<Rightarrow> nat \<Rightarrow> nat" where
  "fdt_skip_node blob start_offset =
     (let size = fst (fdt_node_name blob start_offset)
      in if size = 0 then 0
         else let offset = start_offset + size;
                  offset = skip_props blob offset;
                  offset = skip_children blob offset
              in offset - start_offset + 4)"
| "skip_children blob offset =
     (let size = fdt_skip_node blob offset
      in if size \<noteq> 0 then skip_children blob (offset + size) else offset)"
  by pat_completeness auto
termination
proof (relation "measure (\<lambda>x. case x of Inl (blob, offset) \<Rightarrow> 2 * (length blob - offset)
                                      | Inr (blob, offset) \<Rightarrow> 2 * (length blob - offset) + 1)")
  show "wf (measure (\<lambda>x. case x of Inl (blob, offset) \<Rightarrow> 2 * (length blob - offset)
                                      | Inr (blob, offset) \<Rightarrow> 2 * (length blob - offset) + 1))"
    by simp
next
  fix blob :: "byte list" and start_offset size offset offseta :: nat
  assume a: "size = fst (fdt_node_name blob start_offset)" "size \<noteq> 0"
    "offset = start_offset + size" "offseta = skip_props blob offset"
  have mono: "off \<le> skip_props blob off" for off
  proof (induction blob off rule: skip_props.induct)
    case (1 blob offset)
    show ?case
    proof (cases "fst (fdt_next_property blob offset) = 0")
      case True
      then show ?thesis by (subst skip_props.simps) simp
    next
      case False
      from "1" [OF refl False]
      have "offset \<le> skip_props blob (offset + fst (fdt_next_property blob offset))" by simp
      with False show ?thesis by (subst skip_props.simps) (simp add: Let_def)
    qed
  qed
  from a have "be32toh blob start_offset \<noteq> 0"
    by (auto simp: fdt_node_name_def TokenBeginNode_def split: if_splits)
  then have "start_offset < length blob"
    by (rule contrapos_np) (simp add: be32toh_def byte_at_def)
  moreover from a mono [of offset] have "start_offset < offseta" by simp
  ultimately show "(Inr (blob, offseta), Inl (blob, start_offset))
       \<in> measure (\<lambda>x. case x of Inl (blob, offset) \<Rightarrow> 2 * (length blob - offset)
                                      | Inr (blob, offset) \<Rightarrow> 2 * (length blob - offset) + 1)"
    by simp
next
  fix blob :: "byte list" and offset :: nat
  show "(Inl (blob, offset), Inr (blob, offset))
       \<in> measure (\<lambda>x. case x of Inl (blob, offset) \<Rightarrow> 2 * (length blob - offset)
                                      | Inr (blob, offset) \<Rightarrow> 2 * (length blob - offset) + 1)"
    by simp
next
  fix blob :: "byte list" and offset size :: nat
  assume a: "size = fdt_skip_node blob offset" "size \<noteq> 0"
    and dom: "fdt_skip_node_skip_children_dom (Inl (blob, offset))"
  from a fdt_skip_node.psimps [OF dom] have "fst (fdt_node_name blob offset) \<noteq> 0"
    by (auto simp: Let_def split: if_splits)
  then have "be32toh blob offset \<noteq> 0"
    by (auto simp: fdt_node_name_def TokenBeginNode_def split: if_splits)
  then have "offset < length blob"
    by (rule contrapos_np) (simp add: be32toh_def byte_at_def)
  with a show "(Inr (blob, offset + size), Inr (blob, offset))
       \<in> measure (\<lambda>x. case x of Inl (blob, offset) \<Rightarrow> 2 * (length blob - offset)
                                      | Inr (blob, offset) \<Rightarrow> 2 * (length blob - offset) + 1)"
    by simp
qed

declare fdt_skip_node.simps [simp del] skip_children.simps [simp del]

text \<open>
  The property iteration of \<^verbatim>\<open>fdt_unflatten_node\<close>; \<open>last_pos\<close> is the position
  of the last link, after which the next property is inserted.
\<close>

function unflatten_props ::
  "byte list \<Rightarrow> nat \<Rightarrow> nat \<Rightarrow> FdtProperty list \<Rightarrow> nat \<times> FdtProperty list" where
  "unflatten_props blob offset last_pos props =
     (let (size, fprop) = fdt_next_property blob offset
      in if size \<noteq> 0
         then let prop = the fprop;
                  props = list_insert_after prop last_pos props;
                  last_pos = Suc last_pos
              in unflatten_props blob (offset + size) last_pos props
         else (offset, props))"
  by pat_completeness auto
termination
proof (relation "measure (\<lambda>(blob, offset, last_pos, props). length blob - offset)", goal_cases)
  have tok: "offset < length blob" if "fst (fdt_next_property blob offset) \<noteq> 0" for blob offset
  proof -
    from that have "be32toh blob offset \<noteq> 0"
      by (auto simp: fdt_next_property_def TokenProperty_def split: if_splits)
    then show ?thesis
      by (rule contrapos_np) (simp add: be32toh_def byte_at_def)
  qed
  {
    case 1
    show ?case by simp
  next
    case (2 blob offset last_pos props x size fprop)
    then have "fst (fdt_next_property blob offset) \<noteq> 0" by (metis fst_conv)
    from tok [OF this] 2 show ?case by simp
  }
qed

declare unflatten_props.simps [simp del]

text \<open>
  \<^verbatim>\<open>fdt_unflatten_node\<close>: the bytes consumed and the node stored through
  \<^verbatim>\<open>new_node\<close>; its child iteration links each child after the last one.
\<close>

function fdt_unflatten_node :: "byte list \<Rightarrow> nat \<Rightarrow> nat \<times> DeviceTreeNode option"
  and unflatten_children ::
    "byte list \<Rightarrow> nat \<Rightarrow> nat \<Rightarrow> DeviceTreeNode list \<Rightarrow> nat \<times> DeviceTreeNode list" where
  "fdt_unflatten_node blob start_offset =
     (let (size, nm) = fdt_node_name blob start_offset
      in if size = 0 then (0, None)
         else let offset = start_offset + size;
                  node = Node (the nm) (properties alloc_node) (children alloc_node);
                  (offset, props) = unflatten_props blob offset 0 (properties node);
                  (offset, chs) = unflatten_children blob offset 0 (children node)
              in (offset - start_offset + 4, Some (Node (name node) props chs)))"
| "unflatten_children blob offset last_pos chs =
     (let (size, child) = fdt_unflatten_node blob offset
      in if size \<noteq> 0
         then let chs = list_insert_after (the child) last_pos chs;
                  last_pos = Suc last_pos
              in unflatten_children blob (offset + size) last_pos chs
         else (offset, chs))"
  by pat_completeness auto
termination
proof (relation "measure (\<lambda>x. case x of Inl (blob, offset) \<Rightarrow> 2 * (length blob - offset)
                               | Inr (blob, offset, last_pos, chs) \<Rightarrow> 2 * (length blob - offset) + 1)", goal_cases)
  have tok: "offset < length blob" if "fst (fdt_node_name blob offset) \<noteq> 0" for blob offset
  proof -
    from that have "be32toh blob offset \<noteq> 0"
      by (auto simp: fdt_node_name_def TokenBeginNode_def split: if_splits)
    then show ?thesis
      by (rule contrapos_np) (simp add: be32toh_def byte_at_def)
  qed
  have mono: "offset \<le> fst (unflatten_props blob offset last_pos props)"
    for blob offset last_pos props
  proof (induction blob offset last_pos props rule: unflatten_props.induct)
    case (1 blob offset last_pos props)
    obtain size fprop where np: "fdt_next_property blob offset = (size, fprop)"
      by (cases "fdt_next_property blob offset")
    show ?case
    proof (cases "size = 0")
      case True
      with np show ?thesis by (subst unflatten_props.simps) simp
    next
      case False
      from "1" [OF refl np [symmetric] False refl refl refl]
      have "offset \<le> fst (unflatten_props blob (offset + size) (Suc last_pos)
                (list_insert_after (the fprop) last_pos props))" by simp
      with np False show ?thesis by (subst unflatten_props.simps) (simp add: Let_def)
    qed
  qed
  {
    case 1
    show ?case by simp
  next
    case (2 blob start_offset x size nm offset node y offseta props)
    then have "fst (fdt_node_name blob start_offset) \<noteq> 0" by (metis fst_conv)
    from tok [OF this] have "start_offset < length blob" .
    moreover from 2 mono [of offset blob 0 "properties node"]
    have "start_offset < offseta" by (metis add_gr_0 fst_conv less_add_same_cancel1 less_le_trans neq0_conv)
    ultimately show ?case by simp
  next
    case 3
    then show ?case by simp
  next
    case (4 blob offset last_pos chs x size child)
    then have dom: "fdt_unflatten_node_unflatten_children_dom (Inl (blob, offset))"
      and sz: "fst (fdt_unflatten_node blob offset) \<noteq> 0" by (auto, metis fst_conv)
    from sz fdt_unflatten_node.psimps [OF dom] have "fst (fdt_node_name blob offset) \<noteq> 0"
      by (auto simp: Let_def split: if_splits prod.splits)
    from tok [OF this] 4 show ?case by simp
  }
qed

declare fdt_unflatten_node.simps [simp del] unflatten_children.simps [simp del]


text \<open>The reserve map: 16-byte entries up to the first one whose size is zero.\<close>

definition be64toh :: "byte list \<Rightarrow> nat \<Rightarrow> 64 word" where
  "be64toh mem off = of_nat (be32toh mem off * 2 ^ 32 + be32toh mem (off + 4))"

record DeviceTreeReserveMapEntry =
  entry_start :: "64 word"
  entry_size :: "64 word"

definition fdt_unflatten_map_entry ::
  "byte list \<Rightarrow> nat \<Rightarrow> nat \<times> DeviceTreeReserveMapEntry option" where
  "fdt_unflatten_map_entry blob offset =
     (let start = be64toh blob offset;
          size = be64toh blob (offset + 8)
      in if size = 0 then (0, None)
         else (16, Some \<lparr>entry_start = start, entry_size = size\<rparr>))"

function unflatten_reserve_map ::
  "byte list \<Rightarrow> nat \<Rightarrow> nat \<Rightarrow> DeviceTreeReserveMapEntry list \<Rightarrow> DeviceTreeReserveMapEntry list" where
  "unflatten_reserve_map blob offset last_pos entries =
     (let (size, entry) = fdt_unflatten_map_entry blob offset
      in if size \<noteq> 0
         then let entries = list_insert_after (the entry) last_pos entries;
                  last_pos = Suc last_pos
              in unflatten_reserve_map blob (offset + size) last_pos entries
         else entries)"
  by pat_completeness auto
termination
proof (relation "measure (\<lambda>(blob, offset, last_pos, entries). length blob - offset)", goal_cases)
  case 1
  show ?case by simp
next
  case (2 blob offset last_pos entries x size entry)
  then have "be64toh blob (offset + 8) \<noteq> 0" and sz: "size = 16"
    by (auto simp: fdt_unflatten_map_entry_def Let_def split: if_splits)
  have "offset < length blob"
  proof (rule ccontr)
    assume "\<not> offset < length blob"
    then have "be32toh blob (offset + 8) = 0" "be32toh blob (offset + 8 + 4) = 0"
      by (simp_all add: be32toh_def byte_at_def)
    then have "be64toh blob (offset + 8) = 0" by (simp only: be64toh_def) simp
    with \<open>be64toh blob (offset + 8) \<noteq> 0\<close> show False by simp
  qed
  with sz show ?case by simp
qed

declare unflatten_reserve_map.simps [simp del]

text \<open>\<^verbatim>\<open>DeviceTree\<close>; a NULL root is \<open>None\<close>.\<close>

record DeviceTree =
  header :: "byte list"
  header_size :: nat
  reserve_map :: "DeviceTreeReserveMapEntry list"
  root :: "DeviceTreeNode option"

definition fdt_unflatten :: "byte list \<Rightarrow> DeviceTree" where
  "fdt_unflatten blob =
     (let struct_offset = be32toh blob structure_offset_field;
          strings_offset = be32toh blob strings_offset_field;
          reserve_offset = be32toh blob reserve_map_offset_field;
          min_offset = min struct_offset strings_offset;
          min_offset = min min_offset reserve_offset
      in \<lparr>header = blob,
          header_size = min_offset,
          reserve_map = unflatten_reserve_map blob reserve_offset 0 [],
          root = snd (fdt_unflatten_node blob struct_offset)\<rparr>)"

text \<open>
  A property token at an offset of a well-formed blob: the blob is shorter than
  \<open>2 ^ 31\<close> bytes, and the padded value and the first byte of the name lie inside
  it.
\<close>

definition prop_in_blob :: "byte list \<Rightarrow> nat \<Rightarrow> bool" where
  "prop_in_blob blob offset \<longleftrightarrow>
     length blob < 2 ^ 31 \<and>
     offset + 12 + size32 (be32toh blob (offset + 4)) * 4 \<le> length blob \<and>
     be32toh blob strings_offset_field + be32toh blob (offset + 8) < length blob"

subsection \<open>Measuring the flattened tree\<close>

text \<open>
  \<^verbatim>\<open>dt_flat_prop_size\<close>, \<^verbatim>\<open>dt_flat_node_size\<close> and \<^verbatim>\<open>dt_flat_size\<close>.
  The two counters and the total are \<^verbatim>\<open>uint32_t\<close>: the total starts as the
  header size modulo \<open>2 ^ 32\<close>, and every addition to the three is kept modulo
  \<open>2 ^ 32\<close>. \<^verbatim>\<open>size32\<close> takes a \<^verbatim>\<open>uint32_t\<close>, so the
  \<^verbatim>\<open>size_t\<close> value \<^verbatim>\<open>strlen(name) + 1\<close> is reduced modulo \<open>2 ^ 32\<close>
  when it is passed. A NULL root is dereferenced by the code; the result is \<open>None\<close>.
\<close>

definition dt_flat_prop_size :: "FdtProperty \<Rightarrow> nat \<times> nat \<Rightarrow> nat \<times> nat" where
  "dt_flat_prop_size prop = (\<lambda>(struct_size, strings_size).
     let struct_size = (struct_size + 4) mod 2 ^ 32;
         struct_size = (struct_size + 4) mod 2 ^ 32;
         struct_size = (struct_size + 4) mod 2 ^ 32;
         struct_size = (struct_size + size32 (prop_size prop) * 4) mod 2 ^ 32;
         strings_size = (strings_size + (length (prop_name prop) + 1)) mod 2 ^ 32
     in (struct_size, strings_size))"

fun dt_flat_node_size :: "DeviceTreeNode \<Rightarrow> nat \<times> nat \<Rightarrow> nat \<times> nat" where
  "dt_flat_node_size (Node nm props chs) (struct_size, strings_size) =
     (let struct_size = (struct_size + 4) mod 2 ^ 32;
          struct_size = (struct_size + size32 ((length nm + 1) mod 2 ^ 32) * 4) mod 2 ^ 32;
          (struct_size, strings_size) =
            fold (\<lambda>prop sizes. dt_flat_prop_size prop sizes) props (struct_size, strings_size);
          (struct_size, strings_size) =
            fold (\<lambda>child sizes. dt_flat_node_size child sizes) chs (struct_size, strings_size);
          struct_size = (struct_size + 4) mod 2 ^ 32
      in (struct_size, strings_size))"

definition dt_flat_size :: "DeviceTree \<Rightarrow> nat option" where
  "dt_flat_size tree =
     (case root tree of
        None \<Rightarrow> None
      | Some root_node \<Rightarrow>
          let size = header_size tree mod 2 ^ 32;
              size = fold (\<lambda>entry size. (size + 16) mod 2 ^ 32) (reserve_map tree) size;
              size = (size + 16) mod 2 ^ 32;
              (struct_size, strings_size) = dt_flat_node_size root_node (0, 0);
              size = (size + struct_size) mod 2 ^ 32;
              size = (size + 4) mod 2 ^ 32;
              size = (size + strings_size) mod 2 ^ 32
          in Some size)"

subsection \<open>Flattening\<close>

text \<open>
  The destination is a memory addressed from \<^verbatim>\<open>start_dest\<close>: a function from
  offsets to bytes, so that a write at any offset is recorded. \<^verbatim>\<open>memcpy\<close> copies
  the first \<open>n\<close> bytes found at the source pointer (a byte list, read as zero past
  its end), \<^verbatim>\<open>strcpy\<close> the characters of a string and the terminating NUL.
\<close>

type_synonym memory = "nat \<Rightarrow> byte"

definition put_bytes :: "memory \<Rightarrow> nat \<Rightarrow> byte list \<Rightarrow> memory" where
  "put_bytes mem dest bs = (\<lambda>i. if dest \<le> i \<and> i < dest + length bs then bs ! (i - dest) else mem i)"

definition memcpy :: "memory \<Rightarrow> nat \<Rightarrow> byte list \<Rightarrow> nat \<Rightarrow> memory" where
  "memcpy mem dest src n = put_bytes mem dest (map (byte_at src) [0..<n])"

definition strcpy :: "memory \<Rightarrow> nat \<Rightarrow> string \<Rightarrow> memory" where
  "strcpy mem dest s = put_bytes mem dest (map of_char s @ [0])"

text \<open>\<^verbatim>\<open>htobe64\<close>: the eight bytes of a 64-bit value, most significant first.\<close>

definition htobe64 :: "64 word \<Rightarrow> byte list" where
  "htobe64 v = htobe32 (unat v div 2 ^ 32) @ htobe32 (unat v)"

text \<open>
  \<^verbatim>\<open>dt_flatten_map_entry\<close>, \<^verbatim>\<open>dt_flatten_prop\<close> and
  \<^verbatim>\<open>dt_flatten_node\<close> take the write cursors by reference; the model returns
  the memory together with the cursors. In the last two, \<^verbatim>\<open>size32(...) * 4\<close> is a
  product of \<^verbatim>\<open>uint32_t\<close> and \<^verbatim>\<open>int\<close>, kept modulo \<open>2 ^ 32\<close>, and the
  name offset is the difference of the two addresses, kept modulo \<open>2 ^ 32\<close>.
\<close>

definition dt_flatten_map_entry ::
  "DeviceTreeReserveMapEntry \<Rightarrow> memory \<times> nat \<Rightarrow> memory \<times> nat" where
  "dt_flatten_map_entry entry = (\<lambda>(mem, map_start).
     let mem = put_bytes mem map_start (htobe64 (entry_start entry));
         mem = put_bytes mem (map_start + 8) (htobe64 (entry_size entry));
         map_start = map_start + 16
     in (mem, map_start))"

definition dt_flatten_prop ::
  "FdtProperty \<Rightarrow> nat \<Rightarrow> memory \<times> nat \<times> nat \<Rightarrow> memory \<times> nat \<times> nat" where
  "dt_flatten_prop prop strings_base = (\<lambda>(mem, struct_start, strings_start).
     let dstruct = struct_start;
         dstrings = strings_start;
         mem = put_bytes mem dstruct (htobe32 TokenProperty);
         dstruct = dstruct + 4;
         mem = put_bytes mem dstruct (htobe32 (prop_size prop));
         dstruct = dstruct + 4;
         name_offset = nat ((int dstrings - int strings_base) mod 2 ^ 32);
         mem = put_bytes mem dstruct (htobe32 name_offset);
         dstruct = dstruct + 4;
         mem = strcpy mem dstrings (prop_name prop);
         dstrings = dstrings + (length (prop_name prop) + 1);
         mem = memcpy mem dstruct (prop_data prop) (prop_size prop);
         dstruct = dstruct + (size32 (prop_size prop) * 4) mod 2 ^ 32
     in (mem, dstruct, dstrings))"

fun dt_flatten_node ::
  "DeviceTreeNode \<Rightarrow> nat \<Rightarrow> memory \<times> nat \<times> nat \<Rightarrow> memory \<times> nat \<times> nat" where
  "dt_flatten_node (Node nm props chs) strings_base (mem, struct_start, strings_start) =
     (let dstruct = struct_start;
          dstrings = strings_start;
          mem = put_bytes mem dstruct (htobe32 TokenBeginNode);
          dstruct = dstruct + 4;
          mem = strcpy mem dstruct nm;
          dstruct = dstruct + (size32 ((length nm + 1) mod 2 ^ 32) * 4) mod 2 ^ 32;
          (mem, dstruct, dstrings) =
            fold (\<lambda>prop st. dt_flatten_prop prop strings_base st) props (mem, dstruct, dstrings);
          (mem, dstruct, dstrings) =
            fold (\<lambda>child st. dt_flatten_node child strings_base st) chs (mem, dstruct, dstrings);
          mem = put_bytes mem dstruct (htobe32 TokenEndNode);
          dstruct = dstruct + 4
      in (mem, dstruct, dstrings))"

text \<open>
  \<^verbatim>\<open>dt_flatten\<close>. The header fields are written through the destination, at
  their offsets in \<^verbatim>\<open>FdtHeader\<close>. A NULL root is dereferenced by the code; the
  result is \<open>None\<close>.
\<close>

definition dt_flatten :: "DeviceTree \<Rightarrow> memory \<Rightarrow> memory option" where
  "dt_flatten tree mem =
     (case root tree of
        None \<Rightarrow> None
      | Some root_node \<Rightarrow>
          let dest = 0;
              mem = memcpy mem dest (header tree) (header_size tree);
              dest = dest + header_size tree;
              (mem, dest) = fold dt_flatten_map_entry (reserve_map tree) (mem, dest);
              mem = put_bytes mem dest (replicate 16 0);
              dest = dest + 16;
              (struct_size, strings_size) = dt_flat_node_size root_node (0, 0);
              struct_start = dest;
              mem = put_bytes mem structure_offset_field (htobe32 dest);
              mem = put_bytes mem structure_size_field (htobe32 struct_size);
              dest = dest + struct_size;
              mem = put_bytes mem dest (htobe32 TokenEnd);
              dest = dest + 4;
              strings_start = dest;
              mem = put_bytes mem strings_offset_field (htobe32 dest);
              mem = put_bytes mem strings_size_field (htobe32 strings_size);
              dest = dest + strings_size;
              (mem, struct_end, strings_end) =
                dt_flatten_node root_node strings_start (mem, struct_start, strings_start);
              mem = put_bytes mem totalsize_field (htobe32 dest)
          in Some mem)"

text \<open>The first \<open>n\<close> bytes of a memory as a blob.\<close>

definition image_of :: "memory \<Rightarrow> nat \<Rightarrow> byte list" where
  "image_of mem n = map mem [0..<n]"

text \<open>
  The claim's words: the bytes of the structure block and of the strings block, summed
  without wrap-around, and the length of the whole flattened tree.
\<close>

definition prop_struct_len :: "FdtProperty \<Rightarrow> nat" where
  "prop_struct_len p = 12 + size32 (prop_size p) * 4"

definition props_struct_len :: "FdtProperty list \<Rightarrow> nat" where
  "props_struct_len ps = sum_list (map prop_struct_len ps)"

definition props_strings_len :: "FdtProperty list \<Rightarrow> nat" where
  "props_strings_len ps = sum_list (map (\<lambda>p. length (prop_name p) + 1) ps)"

fun struct_len :: "DeviceTreeNode \<Rightarrow> nat" where
  "struct_len (Node nm props chs) =
     4 + size32 (length nm + 1) * 4 + props_struct_len props + sum_list (map struct_len chs) + 4"

fun strings_len :: "DeviceTreeNode \<Rightarrow> nat" where
  "strings_len (Node nm props chs) = props_strings_len props + sum_list (map strings_len chs)"

definition flat_len :: "DeviceTree \<Rightarrow> DeviceTreeNode \<Rightarrow> nat" where
  "flat_len tree root_node =
     header_size tree + 16 * (length (reserve_map tree) + 1)
       + struct_len root_node + 4 + strings_len root_node"

text \<open>What a write sequence leaves untouched, and where it leaves the two cursors.\<close>

definition writes_within ::
  "memory \<Rightarrow> memory \<Rightarrow> nat \<Rightarrow> nat \<Rightarrow> nat \<Rightarrow> nat \<Rightarrow> bool" where
  "writes_within mem mem' s s' t t' \<longleftrightarrow>
     (\<forall>i. \<not> (s \<le> i \<and> i < s') \<and> \<not> (t \<le> i \<and> i < t') \<longrightarrow> mem' i = mem i)"

text \<open>Two memories that agree on two regions.\<close>

definition agrees :: "memory \<Rightarrow> memory \<Rightarrow> nat \<Rightarrow> nat \<Rightarrow> nat \<Rightarrow> nat \<Rightarrow> bool" where
  "agrees mem mem' s s' t t' \<longleftrightarrow>
     (\<forall>i. (s \<le> i \<and> i < s') \<or> (t \<le> i \<and> i < t') \<longrightarrow> mem i = mem' i)"

text \<open>
  A tree that a blob can hold: no name contains a NUL, and the data of every property
  has the length that its size field gives. Then, what a memory must hold for the
  reader to find a given property, node or reserve map at given offsets.
\<close>

definition stored :: "memory \<Rightarrow> nat \<Rightarrow> byte list \<Rightarrow> bool" where
  "stored mem off bs = list_all (\<lambda>j. mem (off + j) = bs ! j) [0..<length bs]"

definition wf_prop :: "FdtProperty \<Rightarrow> bool" where
  "wf_prop p \<longleftrightarrow> nul_free (prop_name p) \<and> length (prop_data p) = prop_size p"

fun wf_node :: "DeviceTreeNode \<Rightarrow> bool" where
  "wf_node (Node nm props chs) \<longleftrightarrow> nul_free nm \<and> list_all wf_prop props \<and> list_all wf_node chs"

definition enc_prop :: "memory \<Rightarrow> nat \<Rightarrow> nat \<Rightarrow> nat \<Rightarrow> nat \<Rightarrow> FdtProperty \<Rightarrow> bool" where
  "enc_prop mem len sb ds dstr p \<longleftrightarrow>
     stored mem ds (htobe32 TokenProperty) \<and>
     stored mem (ds + 4) (htobe32 (prop_size p)) \<and>
     stored mem (ds + 8) (htobe32 ((dstr - sb) mod 2 ^ 32)) \<and>
     stored mem (ds + 12) (prop_data p) \<and>
     stored mem dstr (map of_char (prop_name p) @ [0]) \<and>
     ds + prop_struct_len p \<le> len \<and> sb \<le> dstr \<and> dstr + (length (prop_name p) + 1) \<le> len"

fun enc_props ::
  "memory \<Rightarrow> nat \<Rightarrow> nat \<Rightarrow> nat \<Rightarrow> nat \<Rightarrow> FdtProperty list \<Rightarrow> bool" where
  "enc_props mem len sb ds dstr [] = True"
| "enc_props mem len sb ds dstr (p # ps) =
     (enc_prop mem len sb ds dstr p \<and>
      enc_props mem len sb (ds + prop_struct_len p) (dstr + (length (prop_name p) + 1)) ps)"

fun enc_node :: "memory \<Rightarrow> nat \<Rightarrow> nat \<Rightarrow> nat \<Rightarrow> nat \<Rightarrow> DeviceTreeNode \<Rightarrow> bool"
  and enc_nodes :: "memory \<Rightarrow> nat \<Rightarrow> nat \<Rightarrow> nat \<Rightarrow> nat \<Rightarrow> DeviceTreeNode list \<Rightarrow> bool" where
  "enc_node mem len sb ds dstr (Node nm props chs) =
     (stored mem ds (htobe32 TokenBeginNode) \<and>
      stored mem (ds + 4) (map of_char nm @ [0]) \<and>
      enc_props mem len sb (ds + 4 + size32 (length nm + 1) * 4) dstr props \<and>
      enc_nodes mem len sb (ds + 4 + size32 (length nm + 1) * 4 + props_struct_len props)
        (dstr + props_strings_len props) chs \<and>
      stored mem (ds + 4 + size32 (length nm + 1) * 4 + props_struct_len props
                    + sum_list (map struct_len chs)) (htobe32 TokenEndNode))"
| "enc_nodes mem len sb ds dstr [] = True"
| "enc_nodes mem len sb ds dstr (c # cs) =
     (enc_node mem len sb ds dstr c \<and>
      enc_nodes mem len sb (ds + struct_len c) (dstr + strings_len c) cs)"

fun enc_map :: "memory \<Rightarrow> nat \<Rightarrow> DeviceTreeReserveMapEntry list \<Rightarrow> bool" where
  "enc_map mem off [] = stored mem off (replicate 16 0)"
| "enc_map mem off (e # es) =
     (stored mem off (htobe64 (entry_start e)) \<and>
      stored mem (off + 8) (htobe64 (entry_size e)) \<and>
      enc_map mem (off + 16) es)"

section \<open>Properties\<close>

lemma find_bin_prop_scan_absent:
  "\<forall>p \<in> set props. prop_name p \<noteq> nm \<Longrightarrow> find_bin_prop_scan props nm out = out"
  by (induction props) auto

lemma find_bin_prop_scan_first:
  "\<forall>q \<in> set pre. prop_name q \<noteq> nm \<Longrightarrow> prop_name p = nm \<Longrightarrow>
   find_bin_prop_scan (pre @ p # post) nm out = (Some (prop_data p), prop_size p)"
  by (induction pre) auto

text \<open>
  Claim C10. When no property of the node has the name, \<^verbatim>\<open>dt_find_bin_prop\<close> yields
  the NULL data pointer and size 0, and \<^verbatim>\<open>dt_find_string_prop\<close> yields NULL; when
  some property has the name, the first one in list order is returned.
\<close>

theorem dt_find_bin_prop_result:
  "((\<forall>p \<in> set (properties node). prop_name p \<noteq> nm) \<longrightarrow>
      dt_find_bin_prop node nm = (None, 0) \<and> dt_find_string_prop node nm = None) \<and>
   (properties node = pre @ p # post \<and> (\<forall>q \<in> set pre. prop_name q \<noteq> nm) \<and> prop_name p = nm \<longrightarrow>
      dt_find_bin_prop node nm = (Some (prop_data p), prop_size p) \<and>
      dt_find_string_prop node nm = Some (prop_data p))"
  by (simp add: dt_find_bin_prop_def dt_find_string_prop_def find_bin_prop_scan_absent
      find_bin_prop_scan_first)

theorem dt_find_bin_prop_result_witness:
  "dt_find_bin_prop (Node ''n'' [\<lparr>prop_name = ''a'', prop_data = [1], prop_size = 1\<rparr>,
        \<lparr>prop_name = ''b'', prop_data = [2, 3], prop_size = 2\<rparr>,
        \<lparr>prop_name = ''b'', prop_data = [4], prop_size = 1\<rparr>] []) ''c'' = (None, 0) \<and>
   dt_find_bin_prop (Node ''n'' [\<lparr>prop_name = ''a'', prop_data = [1], prop_size = 1\<rparr>,
        \<lparr>prop_name = ''b'', prop_data = [2, 3], prop_size = 2\<rparr>,
        \<lparr>prop_name = ''b'', prop_data = [4], prop_size = 1\<rparr>] []) ''b'' = (Some [2, 3], 2)"
  using dt_find_bin_prop_result [where nm = "''c''" and node = "Node ''n''
        [\<lparr>prop_name = ''a'', prop_data = [1], prop_size = 1\<rparr>,
         \<lparr>prop_name = ''b'', prop_data = [2, 3], prop_size = 2\<rparr>,
         \<lparr>prop_name = ''b'', prop_data = [4], prop_size = 1\<rparr>] []"]
    dt_find_bin_prop_result [where nm = "''b''" and node = "Node ''n''
        [\<lparr>prop_name = ''a'', prop_data = [1], prop_size = 1\<rparr>,
         \<lparr>prop_name = ''b'', prop_data = [2, 3], prop_size = 2\<rparr>,
         \<lparr>prop_name = ''b'', prop_data = [4], prop_size = 1\<rparr>] []"
      and pre = "[\<lparr>prop_name = ''a'', prop_data = [1], prop_size = 1\<rparr>]"
      and p = "\<lparr>prop_name = ''b'', prop_data = [2, 3], prop_size = 2\<rparr>"
      and post = "[\<lparr>prop_name = ''b'', prop_data = [4], prop_size = 1\<rparr>]"]
  by simp

lemma add_bin_prop_scan_None:
  "add_bin_prop_scan props nm dat sz = None \<longleftrightarrow> (\<forall>p \<in> set props. prop_name p \<noteq> nm)"
  by (induction props) auto

lemma add_bin_prop_scan_Some:
  "\<exists>p \<in> set props. prop_name p = nm \<Longrightarrow>
   \<exists>pre p post. props = pre @ p # post \<and> (\<forall>q \<in> set pre. prop_name q \<noteq> nm) \<and> prop_name p = nm \<and>
      add_bin_prop_scan props nm dat sz = Some (pre @ p\<lparr>prop_data := dat, prop_size := sz mod 2 ^ 32\<rparr> # post)"
proof (induction props)
  case Nil
  then show ?case by simp
next
  case (Cons a props)
  show ?case
  proof (cases "prop_name a = nm")
    case True
    then have "a # props = [] @ a # props \<and> (\<forall>q \<in> set []. prop_name q \<noteq> nm) \<and> prop_name a = nm \<and>
      add_bin_prop_scan (a # props) nm dat sz = Some ([] @ a\<lparr>prop_data := dat, prop_size := sz mod 2 ^ 32\<rparr> # props)"
      by simp
    then show ?thesis by blast
  next
    case False
    with Cons.prems have "\<exists>p \<in> set props. prop_name p = nm" by auto
    from Cons.IH [OF this] obtain pre p post where
      h: "props = pre @ p # post" "\<forall>q \<in> set pre. prop_name q \<noteq> nm" "prop_name p = nm"
         "add_bin_prop_scan props nm dat sz = Some (pre @ p\<lparr>prop_data := dat, prop_size := sz mod 2 ^ 32\<rparr> # post)"
      by blast
    with False have "a # props = (a # pre) @ p # post \<and> (\<forall>q \<in> set (a # pre). prop_name q \<noteq> nm) \<and> prop_name p = nm \<and>
      add_bin_prop_scan (a # props) nm dat sz = Some ((a # pre) @ p\<lparr>prop_data := dat, prop_size := sz mod 2 ^ 32\<rparr> # post)"
      by simp
    then show ?thesis by blast
  qed
qed

lemma dt_find_added_prop:
  "dt_find_bin_prop (dt_add_bin_prop node nm dat sz) nm = (Some dat, sz mod 2 ^ 32)"
proof (cases "\<exists>p \<in> set (properties node). prop_name p = nm")
  case True
  from add_bin_prop_scan_Some [OF this, of dat sz] obtain pre p post where
    h: "\<forall>q \<in> set pre. prop_name q \<noteq> nm" "prop_name p = nm"
       "add_bin_prop_scan (properties node) nm dat sz =
          Some (pre @ p\<lparr>prop_data := dat, prop_size := sz mod 2 ^ 32\<rparr> # post)"
    by blast
  then show ?thesis
    by (simp add: dt_add_bin_prop_def dt_find_bin_prop_def find_bin_prop_scan_first)
next
  case False
  then have "add_bin_prop_scan (properties node) nm dat sz = None"
    by (simp add: add_bin_prop_scan_None)
  then show ?thesis
    by (simp add: dt_add_bin_prop_def dt_find_bin_prop_def alloc_prop_def list_insert_after_def)
qed

text \<open>
  Claim C3. When some property of the node has the name, \<^verbatim>\<open>dt_add_bin_prop\<close>
  overwrites the data and size of the first such property in place: the number of
  properties, their order and the number of properties with that name do not change
  (so a unique name stays unique). When no property has the name, a new property with
  the name, data and size is put in front of the property list. The size is held in
  the 32-bit size field of the property, so what is stored is the size modulo
  \<open>2 ^ 32\<close>: every size below \<open>2 ^ 32\<close> is stored as it is, and a look-up
  of the name then gives back the data and that size.
\<close>

theorem dt_add_bin_prop_upsert:
  "((\<exists>p \<in> set (properties node). prop_name p = nm) \<longrightarrow>
      (\<exists>pre p post. properties node = pre @ p # post \<and> (\<forall>q \<in> set pre. prop_name q \<noteq> nm) \<and>
         prop_name p = nm \<and>
         dt_add_bin_prop node nm dat sz =
           Node (name node) (pre @ p\<lparr>prop_data := dat, prop_size := sz mod 2 ^ 32\<rparr> # post)
             (children node)) \<and>
      length (properties (dt_add_bin_prop node nm dat sz)) = length (properties node) \<and>
      map prop_name (properties (dt_add_bin_prop node nm dat sz)) = map prop_name (properties node) \<and>
      (length (filter (\<lambda>q. prop_name q = nm) (properties node)) = 1 \<longrightarrow>
       length (filter (\<lambda>q. prop_name q = nm) (properties (dt_add_bin_prop node nm dat sz))) = 1)) \<and>
   ((\<forall>p \<in> set (properties node). prop_name p \<noteq> nm) \<longrightarrow>
      dt_add_bin_prop node nm dat sz =
        Node (name node)
          (\<lparr>prop_name = nm, prop_data = dat, prop_size = sz mod 2 ^ 32\<rparr> # properties node)
          (children node)) \<and>
   (sz < 2 ^ 32 \<longrightarrow>
      dt_find_bin_prop (dt_add_bin_prop node nm dat sz) nm = (Some dat, sz))"
proof (intro conjI impI)
  assume ex: "\<exists>p \<in> set (properties node). prop_name p = nm"
  from add_bin_prop_scan_Some [OF this, of dat sz] obtain pre p post where
    h: "properties node = pre @ p # post" "\<forall>q \<in> set pre. prop_name q \<noteq> nm" "prop_name p = nm"
       "add_bin_prop_scan (properties node) nm dat sz =
          Some (pre @ p\<lparr>prop_data := dat, prop_size := sz mod 2 ^ 32\<rparr> # post)"
    by blast
  then have r: "dt_add_bin_prop node nm dat sz =
           Node (name node) (pre @ p\<lparr>prop_data := dat, prop_size := sz mod 2 ^ 32\<rparr> # post)
             (children node)"
    by (simp add: dt_add_bin_prop_def)
  with h show "\<exists>pre p post. properties node = pre @ p # post \<and> (\<forall>q \<in> set pre. prop_name q \<noteq> nm) \<and>
         prop_name p = nm \<and>
         dt_add_bin_prop node nm dat sz =
           Node (name node) (pre @ p\<lparr>prop_data := dat, prop_size := sz mod 2 ^ 32\<rparr> # post)
             (children node)"
    by blast
  from r h show "length (properties (dt_add_bin_prop node nm dat sz)) = length (properties node)"
    by simp
  from r h show "map prop_name (properties (dt_add_bin_prop node nm dat sz)) =
      map prop_name (properties node)"
    by simp
  assume "length (filter (\<lambda>q. prop_name q = nm) (properties node)) = 1"
  with r h show "length (filter (\<lambda>q. prop_name q = nm) (properties (dt_add_bin_prop node nm dat sz))) = 1"
    by simp
next
  assume "\<forall>p \<in> set (properties node). prop_name p \<noteq> nm"
  then have "add_bin_prop_scan (properties node) nm dat sz = None"
    by (simp add: add_bin_prop_scan_None)
  then show "dt_add_bin_prop node nm dat sz =
        Node (name node)
          (\<lparr>prop_name = nm, prop_data = dat, prop_size = sz mod 2 ^ 32\<rparr> # properties node)
          (children node)"
    by (simp add: dt_add_bin_prop_def alloc_prop_def list_insert_after_def)
next
  assume "sz < 2 ^ 32"
  then have "sz mod 2 ^ 32 = sz" by simp
  then show "dt_find_bin_prop (dt_add_bin_prop node nm dat sz) nm = (Some dat, sz)"
    by (simp only: dt_find_added_prop)
qed

theorem dt_add_bin_prop_upsert_witness:
  "dt_add_bin_prop (Node ''n'' [\<lparr>prop_name = ''a'', prop_data = [1], prop_size = 1\<rparr>] [])
      ''x'' [1, 2, 3, 4] 4 =
     Node ''n'' [\<lparr>prop_name = ''x'', prop_data = [1, 2, 3, 4], prop_size = 4\<rparr>,
                 \<lparr>prop_name = ''a'', prop_data = [1], prop_size = 1\<rparr>] [] \<and>
   dt_add_bin_prop (Node ''n'' [\<lparr>prop_name = ''x'', prop_data = [1, 2, 3, 4], prop_size = 4\<rparr>,
                 \<lparr>prop_name = ''a'', prop_data = [1], prop_size = 1\<rparr>] [])
      ''x'' [5, 6, 7, 8, 9, 10, 11, 12] 8 =
     Node ''n'' [\<lparr>prop_name = ''x'', prop_data = [5, 6, 7, 8, 9, 10, 11, 12], prop_size = 8\<rparr>,
                 \<lparr>prop_name = ''a'', prop_data = [1], prop_size = 1\<rparr>] [] \<and>
   dt_find_bin_prop
     (dt_add_bin_prop (Node ''n'' [\<lparr>prop_name = ''x'', prop_data = [1, 2, 3, 4], prop_size = 4\<rparr>,
                 \<lparr>prop_name = ''a'', prop_data = [1], prop_size = 1\<rparr>] [])
        ''x'' [5, 6, 7, 8, 9, 10, 11, 12] 8) ''x'' = (Some [5, 6, 7, 8, 9, 10, 11, 12], 8) \<and>
   dt_add_bin_prop (Node ''n'' [] []) ''x'' [1, 2, 3, 4] 4294967300 =
     Node ''n'' [\<lparr>prop_name = ''x'', prop_data = [1, 2, 3, 4], prop_size = 4\<rparr>] []"
  using dt_add_bin_prop_upsert [where nm = "''x''" and dat = "[1, 2, 3, 4]" and sz = 4
      and node = "Node ''n'' [\<lparr>prop_name = ''a'', prop_data = [1], prop_size = 1\<rparr>] []"]
    dt_add_bin_prop_upsert [where nm = "''x''" and dat = "[5, 6, 7, 8, 9, 10, 11, 12]" and sz = 8
      and node = "Node ''n'' [\<lparr>prop_name = ''x'', prop_data = [1, 2, 3, 4], prop_size = 4\<rparr>,
                 \<lparr>prop_name = ''a'', prop_data = [1], prop_size = 1\<rparr>] []"]
    dt_add_bin_prop_upsert [where nm = "''x''" and dat = "[1, 2, 3, 4]" and sz = 4294967300
      and node = "Node ''n'' [] []"]
  by (simp add: dt_add_bin_prop_def alloc_prop_def list_insert_after_def)

lemma find_node_scan_None:
  "find_node_scan chs nm = None \<longleftrightarrow> (\<forall>c \<in> set chs. name c \<noteq> nm)"
  by (induction chs) auto

lemma find_node_scan_Some:
  "find_node_scan chs nm = Some i \<Longrightarrow> i < length chs \<and> name (chs ! i) = nm \<and> (\<forall>j < i. name (chs ! j) \<noteq> nm)"
proof (induction chs arbitrary: i)
  case Nil
  then show ?case by simp
next
  case (Cons a chs)
  show ?case
  proof (cases "name a = nm")
    case True
    with Cons.prems show ?thesis by simp
  next
    case False
    with Cons.prems obtain k where k: "find_node_scan chs nm = Some k" "i = Suc k"
      by auto
    from Cons.IH [OF k(1)] k(2) False show ?thesis
      by (auto simp: less_Suc_eq_0_disj)
  qed
qed

lemma dt_find_node_name_props:
  "name (fst (dt_find_node strdup parent path addrcp sizecp create)) = name parent \<and>
   properties (fst (dt_find_node strdup parent path addrcp sizecp create)) = properties parent"
  by (cases path) (auto simp: Let_def split: prod.splits option.splits)

lemma dt_find_node_fresh:
  "\<forall>c \<in> set path. strdup c = Some c \<Longrightarrow>
   \<exists>ac sc. dt_find_node strdup (Node nm [] []) path addrcp sizecp True =
     (new_chain nm path, Some (replicate (length path) 0), ac, sc)"
proof (induction path arbitrary: nm addrcp sizecp)
  case Nil
  then show ?case by (simp split: prod.splits)
next
  case (Cons c path)
  obtain a1 s1 where cells: "dt_read_cell_props (Node nm [] []) addrcp sizecp = (a1, s1)"
    by (cases "dt_read_cell_props (Node nm [] []) addrcp sizecp")
  from Cons.prems have "\<forall>c \<in> set path. strdup c = Some c" and sd: "strdup c = Some c" by auto
  from Cons.IH [OF this(1), of c a1 s1] obtain ac sc where
    "dt_find_node strdup (Node c [] []) path a1 s1 True =
       (new_chain c path, Some (replicate (length path) 0), ac, sc)" by blast
  with cells sd show ?case
    by (simp add: alloc_node_def list_insert_after_def)
qed

lemma dt_find_node_create_path:
  "\<forall>c \<in> set path. strdup c = Some c \<Longrightarrow>
   \<exists>parent' idxs ac sc. dt_find_node strdup parent path addrcp sizecp True = (parent', Some idxs, ac, sc) \<and>
      path_names parent' idxs = Some path \<and>
      (\<exists>n. node_at parent' idxs = Some n \<and> (path \<noteq> [] \<longrightarrow> name n = last path))"
proof (induction path arbitrary: parent addrcp sizecp)
  case Nil
  then show ?case by (simp split: prod.splits)
next
  case (Cons c path)
  obtain a1 s1 where cells: "dt_read_cell_props parent addrcp sizecp = (a1, s1)"
    by (cases "dt_read_cell_props parent addrcp sizecp")
  from Cons.prems have rest: "\<forall>c \<in> set path. strdup c = Some c" and sd: "strdup c = Some c" by auto
  show ?case
  proof (cases "find_node_scan (children parent) c")
    case None
    from Cons.IH [OF rest, of "Node c [] []" a1 s1] obtain found idxs ac sc n where
      r: "dt_find_node strdup (Node c [] []) path a1 s1 True = (found, Some idxs, ac, sc)"
         "path_names found idxs = Some path" "node_at found idxs = Some n"
         "path \<noteq> [] \<longrightarrow> name n = last path"
      by blast
    from dt_find_node_name_props [of strdup "Node c [] []" path a1 s1 True] r(1)
    have nf: "name found = c" by simp
    have eq: "dt_find_node strdup parent (c # path) addrcp sizecp True =
      (Node (name parent) (properties parent) (found # children parent), Some (0 # idxs), ac, sc)"
      using cells None sd r(1) by (simp add: alloc_node_def list_insert_after_def)
    have "path = [] \<Longrightarrow> n = found" using r(2,3) by (cases idxs) (auto split: if_splits)
    with r nf have "path_names (Node (name parent) (properties parent) (found # children parent)) (0 # idxs) = Some (c # path) \<and>
      node_at (Node (name parent) (properties parent) (found # children parent)) (0 # idxs) = Some n \<and>
      name n = last (c # path)"
      by auto
    with eq show ?thesis by auto
  next
    case (Some i)
    from find_node_scan_Some [OF Some] have i: "i < length (children parent)" "name (children parent ! i) = c"
      by auto
    from Cons.IH [OF rest, of "children parent ! i" a1 s1] obtain found idxs ac sc n where
      r: "dt_find_node strdup (children parent ! i) path a1 s1 True = (found, Some idxs, ac, sc)"
         "path_names found idxs = Some path" "node_at found idxs = Some n"
         "path \<noteq> [] \<longrightarrow> name n = last path"
      by blast
    from dt_find_node_name_props [of strdup "children parent ! i" path a1 s1 True] r(1) i
    have nf: "name found = c" by simp
    have eq: "dt_find_node strdup parent (c # path) addrcp sizecp True =
      (Node (name parent) (properties parent) ((children parent)[i := found]), Some (i # idxs), ac, sc)"
      using cells Some r(1) by simp
    have "path = [] \<Longrightarrow> n = found" using r(2,3) by (cases idxs) (auto split: if_splits)
    with r nf i have "path_names (Node (name parent) (properties parent) ((children parent)[i := found])) (i # idxs) = Some (c # path) \<and>
      node_at (Node (name parent) (properties parent) ((children parent)[i := found])) (i # idxs) = Some n \<and>
      name n = last (c # path)"
      by auto
    with eq show ?thesis by auto
  qed
qed

text \<open>
  Claim C6. With an empty path \<^verbatim>\<open>dt_find_node\<close> returns the start node itself,
  whatever the create flag; with create false and no child of the start node named as
  the first component it returns NULL and the tree is as before.
\<close>

theorem dt_find_node_empty_or_missing:
  "fst (dt_find_node strdup start [] addrcp sizecp create) = start \<and>
   fst (snd (dt_find_node strdup start [] addrcp sizecp create)) = Some [] \<and>
   ((\<forall>c \<in> set (children start). name c \<noteq> component) \<longrightarrow>
      fst (dt_find_node strdup start (component # path) addrcp sizecp False) = start \<and>
      fst (snd (dt_find_node strdup start (component # path) addrcp sizecp False)) = None)"
  by (auto simp: find_node_scan_None [symmetric] split: prod.splits)

theorem dt_find_node_empty_or_missing_witness:
  "fst (dt_find_node Some (Node ''root'' [] [Node ''x'' [] []]) [] None None True)
     = Node ''root'' [] [Node ''x'' [] []] \<and>
   fst (snd (dt_find_node Some (Node ''root'' [] [Node ''x'' [] []]) [] None None True)) = Some [] \<and>
   list_all (\<lambda>c. name c \<noteq> ''a'') (children (Node ''root'' [] [Node ''x'' [] []])) \<and>
   fst (dt_find_node Some (Node ''root'' [] [Node ''x'' [] []]) [''a'', ''b''] None None False)
     = Node ''root'' [] [Node ''x'' [] []] \<and>
   fst (snd (dt_find_node Some (Node ''root'' [] [Node ''x'' [] []]) [''a'', ''b''] None None False))
     = None"
  using dt_find_node_empty_or_missing [of Some "Node ''root'' [] [Node ''x'' [] []]" None None True
      "''a''" "[''b'']"]
  by simp

text \<open>
  Claim C4, as amended. With create true, a non-empty path and \<^verbatim>\<open>strdup\<close>
  succeeding on its components, \<^verbatim>\<open>dt_find_node\<close> returns a node that is reached
  from the start node through children named as the components of the path, so its name
  is the last component; the start node keeps its name and properties. When no child of
  the start node has the first component's name, the missing nodes are created without
  properties, each holding only the next one, and the first of them is put in front of
  the start node's child list. When a child has the name, the walk goes on in the first
  such child with the rest of the path, and its siblings stay as they are.
\<close>

theorem dt_find_node_create:
  assumes "path \<noteq> []" and "\<forall>c \<in> set path. strdup c = Some c"
  shows "\<exists>start' idxs ac sc n.
     dt_find_node strdup start path addrcp sizecp True = (start', Some idxs, ac, sc) \<and>
     path_names start' idxs = Some path \<and>
     node_at start' idxs = Some n \<and> name n = last path \<and>
     name start' = name start \<and> properties start' = properties start \<and>
     ((\<forall>c \<in> set (children start). name c \<noteq> hd path) \<longrightarrow>
        children start' = new_chain (hd path) (tl path) # children start \<and>
        idxs = replicate (length path) 0) \<and>
     (\<forall>i. find_node_scan (children start) (hd path) = Some i \<longrightarrow>
        (\<exists>child' idxs'.
           dt_find_node strdup (children start ! i) (tl path)
             (fst (dt_read_cell_props start addrcp sizecp))
             (snd (dt_read_cell_props start addrcp sizecp)) True = (child', Some idxs', ac, sc) \<and>
           children start' = (children start)[i := child'] \<and> idxs = i # idxs'))"
proof -
  from dt_find_node_create_path [OF assms(2), of start addrcp sizecp] assms(1)
  obtain start' idxs ac sc n where
    r: "dt_find_node strdup start path addrcp sizecp True = (start', Some idxs, ac, sc)"
       "path_names start' idxs = Some path" "node_at start' idxs = Some n" "name n = last path"
    by blast
  from dt_find_node_name_props [of strdup start path addrcp sizecp True] r(1)
  have np: "name start' = name start" "properties start' = properties start" by simp_all
  from assms(1) obtain c rest where path: "path = c # rest" by (cases path) auto
  obtain a1 s1 where cells: "dt_read_cell_props start addrcp sizecp = (a1, s1)"
    by (cases "dt_read_cell_props start addrcp sizecp")
  from assms(2) path have rest: "\<forall>c \<in> set rest. strdup c = Some c" and sd: "strdup c = Some c" by auto
  have miss: "children start' = new_chain (hd path) (tl path) # children start \<and>
        idxs = replicate (length path) 0" if "\<forall>c \<in> set (children start). name c \<noteq> hd path"
  proof -
    from that path have None: "find_node_scan (children start) c = None"
      by (simp add: find_node_scan_None)
    from dt_find_node_fresh [OF rest, of c a1 s1] obtain ac' sc' where
      "dt_find_node strdup (Node c [] []) rest a1 s1 True =
         (new_chain c rest, Some (replicate (length rest) 0), ac', sc')" by blast
    with cells None sd r(1) path show ?thesis
      by (auto simp: alloc_node_def list_insert_after_def)
  qed
  have hit: "\<exists>child' idxs'.
           dt_find_node strdup (children start ! i) (tl path)
             (fst (dt_read_cell_props start addrcp sizecp))
             (snd (dt_read_cell_props start addrcp sizecp)) True = (child', Some idxs', ac, sc) \<and>
           children start' = (children start)[i := child'] \<and> idxs = i # idxs'"
    if "find_node_scan (children start) (hd path) = Some i" for i
  proof -
    from that path have Some: "find_node_scan (children start) c = Some i" by simp
    obtain child' res ac' sc' where
      sub: "dt_find_node strdup (children start ! i) rest a1 s1 True = (child', res, ac', sc')"
      by (cases "dt_find_node strdup (children start ! i) rest a1 s1 True")
    with cells Some r(1) path show ?thesis by auto
  qed
  from r np miss hit show ?thesis by blast
qed

theorem dt_find_node_create_witness:
  "[''a'', ''b''] \<noteq> [] \<and> list_all (\<lambda>c. Some c = Some c) [''a'', ''b''] \<and>
   dt_find_node Some (Node ''root'' [] []) [''a'', ''b''] None None True =
     (Node ''root'' [] [Node ''a'' [] [Node ''b'' [] []]], Some [0, 0], None, None) \<and>
   node_at (Node ''root'' [] [Node ''a'' [] [Node ''b'' [] []]]) [0, 0] = Some (Node ''b'' [] [])"
proof -
  have h1: "[''a'', ''b''] \<noteq> []" by simp
  have h2: "\<forall>c \<in> set [''a'', ''b'']. Some c = Some c" by simp
  from dt_find_node_create [OF h1 h2, of "Node ''root'' [] []" None None]
  show ?thesis
    by (simp add: dt_read_cell_props_def alloc_node_def list_insert_after_def)
qed

text \<open>
  Claim C4 as stated says the new child is appended. Under a start node that already
  has a child, the new node comes first.
\<close>

theorem dt_find_node_create_counterexample:
  "children (fst (dt_find_node Some (Node ''r'' [] [Node ''x'' [] []]) [''a''] None None True))
     = [Node ''a'' [] [], Node ''x'' [] []] \<and>
   children (fst (dt_find_node Some (Node ''r'' [] [Node ''x'' [] []]) [''a''] None None True))
     \<noteq> children (Node ''r'' [] [Node ''x'' [] []]) @ [Node ''a'' [] []]"
  by (simp add: dt_read_cell_props_def alloc_node_def list_insert_after_def)


lemma find_append_if:
  "find P (xs @ ys) = (case find P xs of None \<Rightarrow> find P ys | Some x \<Rightarrow> Some x)"
  by (induction xs) auto

lemma find_map_comp: "find P (map f xs) = map_option f (find (\<lambda>x. P (f x)) xs)"
  by (induction xs) auto

lemma unat_of_char: "unat (of_char c :: byte) = of_char c"
proof -
  have "(of_char c :: byte) = of_nat (of_char c)" by (simp only: of_nat_of_char)
  then have "unat (of_char c :: byte) = (of_char c :: nat) mod 2 ^ 8"
    by (simp add: unat_of_nat)
  also have "\<dots> = of_char c" using nat_of_char_less_256 [of c] by simp
  finally show ?thesis .
qed

lemma c1: "char_of (unat (of_char c :: byte)) = c"
  by (simp add: unat_of_char)

lemma byte_of_bits:
  "r + 8 \<le> 32 \<Longrightarrow>
   (of_nat (drop_bit r (take_bit 32 (drop_bit a (unat (v::64 word))))) :: byte) = ucast (drop_bit (a + r) v)"
  by (rule bit_word_eqI) (auto simp: bit_simps add.commute add.left_commute)

lemma htobe32_cell:
  "htobe32 (unat (v::64 word) div 2 ^ a mod 2 ^ 32) =
     [ucast (drop_bit (a + 24) v), ucast (drop_bit (a + 16) v), ucast (drop_bit (a + 8) v), ucast (drop_bit a v)]"
proof -
  have "htobe32 (unat v div 2 ^ a mod 2 ^ 32) =
    [of_nat (drop_bit 24 (take_bit 32 (drop_bit a (unat v)))),
     of_nat (drop_bit 16 (take_bit 32 (drop_bit a (unat v)))),
     of_nat (drop_bit 8 (take_bit 32 (drop_bit a (unat v)))),
     of_nat (drop_bit 0 (take_bit 32 (drop_bit a (unat v))))]"
    unfolding htobe32_def drop_bit_eq_div take_bit_eq_mod by simp
  then show ?thesis by (simp add: byte_of_bits byte_of_bits [of 0, simplified])
qed

lemma dt_write_int_bytes:
  "dest + len \<le> length mem \<Longrightarrow>
   dt_write_int mem dest src len =
     take dest mem @ map (\<lambda>j. ucast (drop_bit (8 * (len - 1 - j)) src)) [0..<len]
       @ drop (dest + len) mem"
proof (induction len arbitrary: mem src)
  case 0
  then show ?case by simp
next
  case (Suc len)
  let ?mem = "mem[dest + len := ucast src]"
  from Suc.prems have b: "dest + len \<le> length ?mem" "dest + len < length mem" by simp_all
  have tl: "drop (dest + len) ?mem = ucast src # drop (dest + Suc len) mem"
    using b(2) by (simp add: Cons_nth_drop_Suc [symmetric])
  have "map (\<lambda>j. (ucast (drop_bit (8 * (len - 1 - j)) (drop_bit 8 src)) :: byte)) [0..<len] =
        map (\<lambda>j. ucast (drop_bit (8 * (Suc len - 1 - j)) src)) [0..<len]"
    by (rule map_cong) (auto simp: drop_bit_drop_bit intro!: arg_cong [where f = "\<lambda>n. ucast (drop_bit n src)"])
  with Suc.IH [OF b(1), of "drop_bit 8 src"] tl show ?case
    by simp
qed

lemma cell_words_bytes_upto:
  "n \<le> m \<Longrightarrow>
   concat (map (\<lambda>k. htobe32 ((unat (v::64 word) div 2 ^ (32 * (m - 1 - k))) mod 2 ^ 32)) [0..<n]) =
   map (\<lambda>j. ucast (drop_bit (8 * (m * 4 - 1 - j)) v)) [0..<n * 4]"
proof (induction n)
  case 0
  then show ?case by simp
next
  case (Suc n)
  then have lt: "n < m" by simp
  have four: "[0..<Suc n * 4] = [0..<n * 4] @ [n * 4, n * 4 + 1, n * 4 + 2, n * 4 + 3]"
    by (simp add: upt_rec numeral_eq_Suc flip: upt_add_eq_append [OF le0, of "n * 4" 4, simplified])
  have e: "8 * (m * 4 - 1 - n * 4) = 32 * (m - 1 - n) + 24"
          "8 * (m * 4 - 1 - (n * 4 + 1)) = 32 * (m - 1 - n) + 16"
          "8 * (m * 4 - 1 - (n * 4 + 2)) = 32 * (m - 1 - n) + 8"
          "8 * (m * 4 - 1 - (n * 4 + 3)) = 32 * (m - 1 - n)"
    using lt by simp_all
  from Suc show ?case
    by (simp only: upt_Suc_append le0 map_append concat_append four list.map concat.simps
        htobe32_cell e append_Nil2)
qed

lemma cell_words_bytes:
  "cell_words n v = map (\<lambda>j. ucast (drop_bit (8 * (n * 4 - 1 - j)) v)) [0..<n * 4]"
  unfolding cell_words_def by (rule cell_words_bytes_upto) simp

lemma dt_write_int_cells:
  "dest + n * 4 \<le> length mem \<Longrightarrow>
   dt_write_int mem dest src (n * 4) = take dest mem @ cell_words n src @ drop (dest + n * 4) mem"
  by (simp add: dt_write_int_bytes cell_words_bytes)

lemma length_cell_words: "length (cell_words n v) = n * 4"
  by (simp add: cell_words_bytes)

lemma reg_loop:
  fixes addrs sizes :: "64 word list"
  defines "entry \<equiv> \<lambda>a s i. cell_words a (addrs ! i) @ cell_words s (sizes ! i)"
  shows "i \<le> count \<Longrightarrow>
   fold (\<lambda>i (data, cur).
           let data = dt_write_int data cur (addrs ! i) (addr_cells * 4);
               cur = cur + addr_cells * 4;
               data = dt_write_int data cur (sizes ! i) (size_cells * 4);
               cur = cur + size_cells * 4
           in (data, cur))
        [0..<i] (replicate ((addr_cells + size_cells) * 4 * count) 0, 0) =
     (concat (map (entry addr_cells size_cells) [0..<i])
        @ replicate ((addr_cells + size_cells) * 4 * count - i * ((addr_cells + size_cells) * 4)) 0,
      i * ((addr_cells + size_cells) * 4))"
proof (induction i)
  case 0
  then show ?case by simp
next
  case (Suc i)
  let ?E = "(addr_cells + size_cells) * 4"
  let ?pre = "concat (map (entry addr_cells size_cells) [0..<i])"
  let ?rest = "?E * count - i * ?E"
  have lpre: "length ?pre = i * ?E"
    by (induction i) (simp_all add: entry_def length_cell_words algebra_simps)
  from Suc.prems have "Suc i * ?E \<le> count * ?E" by (intro mult_le_mono1) simp
  then have room: "i * ?E + ?E \<le> ?E * count" by (simp add: algebra_simps)
  then have r1: "?rest = addr_cells * 4 + (size_cells * 4 + (?E * count - Suc i * ?E))"
    by (simp add: algebra_simps)
  have w1: "dt_write_int (?pre @ replicate ?rest 0) (i * ?E) (addrs ! i) (addr_cells * 4) =
      ?pre @ cell_words addr_cells (addrs ! i)
        @ replicate (size_cells * 4 + (?E * count - Suc i * ?E)) 0"
    using lpre room by (subst dt_write_int_cells) (simp_all add: r1 algebra_simps flip: replicate_add)
  have w2: "dt_write_int (?pre @ cell_words addr_cells (addrs ! i)
        @ replicate (size_cells * 4 + (?E * count - Suc i * ?E)) 0) (i * ?E + addr_cells * 4)
        (sizes ! i) (size_cells * 4) =
      ?pre @ cell_words addr_cells (addrs ! i) @ cell_words size_cells (sizes ! i)
        @ replicate (?E * count - Suc i * ?E) 0"
    using lpre room by (subst dt_write_int_cells) (simp_all add: length_cell_words algebra_simps)
  from Suc have "i \<le> count" by simp
  from Suc.IH [OF this] w1 w2 show ?case
    by (simp add: entry_def algebra_simps)
qed

lemma reg_length:
  fixes count addr_cells size_cells :: "32 word"
  assumes "0 \<le> sint count"
    and "(unat addr_cells + unat size_cells) * 4 * nat (sint count) < 2 ^ 32"
  shows "unat (addr_cells + size_cells) * 4 * nat (sint count mod 2 ^ 64) mod 2 ^ 64 =
     (unat addr_cells + unat size_cells) * 4 * nat (sint count)"
proof (cases "nat (sint count) = 0")
  case True
  with assms(1) have "sint count = 0" by simp
  then show ?thesis by simp
next
  case False
  then obtain k where k: "nat (sint count) = Suc k" by (cases "nat (sint count)") simp_all
  have "unat addr_cells + unat size_cells \<le> (unat addr_cells + unat size_cells) * 4 * Suc k"
    by simp
  with assms(2) have "unat addr_cells + unat size_cells < 2 ^ 32" by (simp only: k)
  then have sum: "unat (addr_cells + size_cells) = unat addr_cells + unat size_cells"
    using unat_add_lem [of addr_cells size_cells] by simp
  have "sint count < 2 ^ 31" using sint_lt [of count] by simp
  with assms(1) have c: "sint count mod 2 ^ 64 = sint count" by simp
  from assms(2) have "(unat addr_cells + unat size_cells) * 4 * nat (sint count) mod 2 ^ 64 =
      (unat addr_cells + unat size_cells) * 4 * nat (sint count)"
    by simp
  then show ?thesis by (simp only: sum c)
qed

lemma length_reg_entries:
  "length (concat (map (\<lambda>i. cell_words a (addrs ! i) @ cell_words b (sizes ! i)) [0..<n])) =
     (a + b) * 4 * n"
  by (induction n) (simp_all add: length_cell_words algebra_simps)

lemma dt_add_reg_prop_data:
  fixes count addr_cells size_cells :: "32 word"
  assumes "0 \<le> sint count"
    and "nat (sint count) \<le> length addrs" and "nat (sint count) \<le> length sizes"
    and "(unat addr_cells + unat size_cells) * 4 * nat (sint count) < 2 ^ 32"
  shows "\<exists>node'. dt_add_reg_prop node addrs sizes count addr_cells size_cells = Some node' \<and>
     dt_find_bin_prop node' ''reg'' =
       (Some (concat (map (\<lambda>i. cell_words (unat addr_cells) (addrs ! i) @
                                cell_words (unat size_cells) (sizes ! i))
                       [0..<nat (sint count)])),
        (unat addr_cells + unat size_cells) * 4 * nat (sint count))"
proof -
  let ?n = "nat (sint count)"
  let ?len = "(unat addr_cells + unat size_cells) * 4 * ?n"
  note len = reg_length [OF assms(1,4)]
  have room: "\<not> ?len < ?n * (unat addr_cells * 4 + unat size_cells * 4)"
    by (simp add: algebra_simps)
  from assms(4) have m: "?len mod 2 ^ 32 = ?len" by simp
  show ?thesis
    unfolding dt_add_reg_prop_def Let_def len
    using assms(2,3) room
    by (simp only: reg_loop [OF le_refl, unfolded Let_def] prod.case dt_find_added_prop m
        not_less [symmetric] if_False simp_thms option.inject ex_simps)
      (simp add: mult.commute)
qed

text \<open>
  Claim C8. Let \<^verbatim>\<open>count\<close> be non-negative, let \<^verbatim>\<open>addrs\<close> and
  \<^verbatim>\<open>sizes\<close> hold at least \<^verbatim>\<open>count\<close> values, and let
  \<open>(addr_cells + size_cells) * 4 * count\<close> be below \<open>2 ^ 32\<close>, so that the length
  fits the 32-bit size field (no arithmetic of the function wraps then). Then
  \<^verbatim>\<open>dt_add_reg_prop\<close> leaves on the node a property named \<^verbatim>\<open>reg\<close> of
  \<open>(addr_cells + size_cells) * 4 * count\<close> bytes: for each entry the address as
  \<open>addr_cells\<close> big-endian 32-bit words, then the size as \<open>size_cells\<close> such words.
  One entry with address 0x1000 and size 0x200, two address cells and one size cell,
  gives the bytes 00 00 00 00 00 00 10 00 00 00 02 00.
\<close>

theorem dt_add_reg_prop_encoding:
  fixes count addr_cells size_cells :: "32 word"
  assumes "0 \<le> sint count"
    and "nat (sint count) \<le> length addrs" and "nat (sint count) \<le> length sizes"
    and "(unat addr_cells + unat size_cells) * 4 * nat (sint count) < 2 ^ 32"
  shows "(\<exists>node'. dt_add_reg_prop node addrs sizes count addr_cells size_cells = Some node' \<and>
      dt_find_bin_prop node' ''reg'' =
       (Some (concat (map (\<lambda>i. cell_words (unat addr_cells) (addrs ! i) @
                                cell_words (unat size_cells) (sizes ! i))
                       [0..<nat (sint count)])),
        (unat addr_cells + unat size_cells) * 4 * nat (sint count))) \<and>
   length (concat (map (\<lambda>i. cell_words (unat addr_cells) (addrs ! i) @
                            cell_words (unat size_cells) (sizes ! i))
                     [0..<nat (sint count)])) =
     (unat addr_cells + unat size_cells) * 4 * nat (sint count) \<and>
   (\<exists>node'. dt_add_reg_prop node [0x1000] [0x200] 1 2 1 = Some node' \<and>
      dt_find_bin_prop node' ''reg'' = (Some [0, 0, 0, 0, 0, 0, 0x10, 0, 0, 0, 2, 0], 12))"
proof (intro conjI)
  show "\<exists>node'. dt_add_reg_prop node addrs sizes count addr_cells size_cells = Some node' \<and>
      dt_find_bin_prop node' ''reg'' =
       (Some (concat (map (\<lambda>i. cell_words (unat addr_cells) (addrs ! i) @
                                cell_words (unat size_cells) (sizes ! i))
                       [0..<nat (sint count)])),
        (unat addr_cells + unat size_cells) * 4 * nat (sint count))"
    by (rule dt_add_reg_prop_data [OF assms])
  show "length (concat (map (\<lambda>i. cell_words (unat addr_cells) (addrs ! i) @
                            cell_words (unat size_cells) (sizes ! i))
                     [0..<nat (sint count)])) =
     (unat addr_cells + unat size_cells) * 4 * nat (sint count)"
    by (rule length_reg_entries)
  have "cell_words 2 0x1000 @ cell_words 1 0x200 = [0, 0, 0, 0, 0, 0, 0x10, 0, 0, 0, 2, 0]"
    by (simp add: cell_words_def htobe32_def upt_rec)
  with dt_add_reg_prop_data [of 1 "[0x1000]" "[0x200]" 2 1 node]
  show "\<exists>node'. dt_add_reg_prop node [0x1000] [0x200] 1 2 1 = Some node' \<and>
      dt_find_bin_prop node' ''reg'' = (Some [0, 0, 0, 0, 0, 0, 0x10, 0, 0, 0, 2, 0], 12)"
    by simp
qed

theorem dt_add_reg_prop_encoding_witness:
  "\<exists>node'. dt_add_reg_prop (Node ''n'' [] []) [0x1000, 0x2000] [0x200, 0x300] 2 1 1 = Some node' \<and>
     dt_find_bin_prop node' ''reg'' =
       (Some [0, 0, 0x10, 0, 0, 0, 2, 0, 0, 0, 0x20, 0, 0, 0, 3, 0], 16)"
proof -
  have h: "0 \<le> sint (2 :: 32 word)" "nat (sint (2 :: 32 word)) \<le> length [0x1000, 0x2000 :: 64 word]"
    "nat (sint (2 :: 32 word)) \<le> length [0x200, 0x300 :: 64 word]"
    "(unat (1 :: 32 word) + unat (1 :: 32 word)) * 4 * nat (sint (2 :: 32 word)) < 2 ^ 32"
    by simp_all
  have "cell_words 1 0x1000 @ cell_words 1 0x200 @ cell_words 1 0x2000 @ cell_words 1 0x300 =
      [0, 0, 0x10, 0, 0, 0, 2, 0, 0, 0, 0x20, 0, 0, 0, 3, 0]"
    by (simp add: cell_words_def htobe32_def upt_rec)
  with dt_add_reg_prop_encoding [OF h, of "Node ''n'' [] []"]
  show ?thesis by (simp add: upt_rec)
qed


lemma strncmp_eq_window:
  "nul_free s \<Longrightarrow> n \<le> length str \<Longrightarrow>
   strncmp_eq s str n \<longleftrightarrow>
     (if length (takeWhile (\<lambda>b. b \<noteq> 0) (take n str)) < n
      then map of_char s = takeWhile (\<lambda>b. b \<noteq> 0) (take n str)
      else take n (map of_char s) = takeWhile (\<lambda>b. b \<noteq> 0) (take n str) \<and> n \<le> length s)"
proof (induction s str n rule: strncmp_eq.induct)
  case (1 s str)
  then show ?case by simp
next
  case (2 str n)
  then obtain b str' where "str = b # str'" by (cases str) auto
  then show ?case by (auto simp: byte_at_def)
next
  case (3 c s str n)
  then obtain b str' where str: "str = b # str'" by (cases str) auto
  from 3 have c: "(of_char c :: byte) \<noteq> 0" and s: "nul_free s" by (simp_all add: nul_free_def)
  from 3 str have "n \<le> length (tl str)" by simp
  from "3.IH" [OF s this] str c show ?case
    by (auto simp: byte_at_def)
qed

lemma nul_entries_nonempty:
  "w \<noteq> [] \<Longrightarrow>
   nul_entries w =
     (if length (takeWhile (\<lambda>x. x \<noteq> 0) w) < length w
      then (takeWhile (\<lambda>x. x \<noteq> 0) w, True)
             # nul_entries (drop (length (takeWhile (\<lambda>x. x \<noteq> 0) w) + 1) w)
      else [(takeWhile (\<lambda>x. x \<noteq> 0) w, False)])"
  by (cases w) (simp_all add: Let_def)

lemma compat_scan_entries:
  "nul_free s \<Longrightarrow> bytes \<le> length str \<Longrightarrow>
   compat_scan s str bytes = list_ex (entry_matches s) (nul_entries (take bytes str))"
proof (induction s str bytes rule: compat_scan.induct)
  case (1 s str bytes)
  show ?case
  proof (cases "bytes = 0")
    case True
    then show ?thesis by (subst compat_scan.simps) simp
  next
    case False
    let ?w = "take bytes str"
    let ?e = "takeWhile (\<lambda>b. b \<noteq> 0) ?w"
    from False "1.prems" have lw: "length ?w = bytes" by simp
    with False have w: "?w \<noteq> []" by auto
    have le: "length ?e \<le> bytes" using length_takeWhile_le [of _ ?w] lw by simp
    have len: "strnlen str bytes = length ?e" by (simp add: strnlen_def)
    note cmp = strncmp_eq_window [OF "1.prems"]
    have unf: "compat_scan s str bytes =
      (if strncmp_eq s str bytes then True
       else if bytes \<le> length ?e + 1 then False
            else compat_scan s (drop (length ?e + 1) str) (bytes - (length ?e + 1)))"
      using False len by (subst compat_scan.simps) (simp add: Let_def)
    show ?thesis
    proof (cases "length ?e < bytes")
      case inside: True
      have ents: "nul_entries ?w = (?e, True) # nul_entries (drop (length ?e + 1) ?w)"
        using inside lw nul_entries_nonempty [OF w] by simp
      show ?thesis
      proof (cases "strncmp_eq s str bytes")
        case True
        with cmp inside have "map of_char s = ?e" by simp
        with True unf ents show ?thesis by (simp add: entry_matches_def)
      next
        case ne: False
        with cmp inside have "map of_char s \<noteq> ?e" by simp
        then have nm: "\<not> entry_matches s (?e, True)" by (auto simp: entry_matches_def)
        show ?thesis
        proof (cases "bytes \<le> length ?e + 1")
          case True
          with lw have "drop (length ?e + 1) ?w = []" by simp
          with ents nm True ne unf show ?thesis
            by simp
        next
          case further: False
          have "bytes - (strnlen str bytes + 1) \<le> length (drop (strnlen str bytes + 1) str)"
            using "1.prems" by simp
          from "1.IH" [OF _ ne refl _ "1.prems"(1) this] False further len
          have "compat_scan s (drop (length ?e + 1) str) (bytes - (length ?e + 1)) =
            list_ex (entry_matches s) (nul_entries (take (bytes - (length ?e + 1)) (drop (length ?e + 1) str)))"
            by simp
          moreover have "take (bytes - (length ?e + 1)) (drop (length ?e + 1) str) = drop (length ?e + 1) ?w"
            by (simp add: drop_take)
          ultimately show ?thesis
            using ents nm further ne unf by simp
        qed
      qed
    next
      case outside: False
      with le have eq: "length ?e = bytes" by simp
      then have ew: "?e = ?w" using lw by (metis takeWhile_eq_take take_all_iff order_refl)
      have "nul_entries ?w = [(?e, False)]"
        using outside lw nul_entries_nonempty [OF w] by simp
      then have ents: "nul_entries ?w = [(?w, False)]"
        by (simp only: ew)
      from cmp outside
      have "strncmp_eq s str bytes \<longleftrightarrow> take bytes (map of_char s) = ?e \<and> bytes \<le> length s"
        by simp
      then have "strncmp_eq s str bytes \<longleftrightarrow> take bytes (map of_char s) = ?w \<and> bytes \<le> length s"
        by (simp only: ew)
      moreover have "take bytes (map of_char s) = ?w \<Longrightarrow> bytes \<le> length s"
        using lw by (metis length_map length_take min.cobounded1 min_def)
      ultimately show ?thesis
        using ents unf eq lw by (auto simp: entry_matches_def)
    qed
  qed
qed


lemma check_compat_scan_entries:
  "nul_free s \<Longrightarrow> list_all (\<lambda>p. prop_size p \<le> length (prop_data p)) props \<Longrightarrow>
   check_compat_scan props s =
     (case find (\<lambda>p. prop_name p = ''compatible'') props of
        None \<Rightarrow> False
      | Some p \<Rightarrow> list_ex (entry_matches s) (nul_entries (take (prop_size p) (prop_data p))))"
  by (induction props) (auto simp: compat_scan_entries)

lemma dt_check_compat_match_entries:
  "nul_free s \<Longrightarrow> data_present node \<Longrightarrow> dt_check_compat_match node s = compat_entry_match node s"
  by (cases node) (simp add: dt_check_compat_match_def compat_entry_match_def check_compat_scan_entries)

lemma preorder_data_present:
  "data_present subtree \<Longrightarrow> (idxs, n) \<in> set (preorder subtree) \<Longrightarrow> data_present n"
  "list_all data_present chs \<Longrightarrow> (idxs, n) \<in> set (preorder_list chs i) \<Longrightarrow> data_present n"
  by (induction subtree and chs i arbitrary: idxs and idxs rule: preorder_preorder_list.induct) auto

lemma preorder_node_at:
  "(idxs, n) \<in> set (preorder subtree) \<Longrightarrow> node_at subtree idxs = Some n"
  "(idxs, n) \<in> set (preorder_list chs i) \<Longrightarrow>
     \<exists>j idxs'. idxs = (i + j) # idxs' \<and> j < length chs \<and> node_at (chs ! j) idxs' = Some n"
proof (induction subtree and chs i arbitrary: idxs and idxs rule: preorder_preorder_list.induct)
  case (1 nm props chs)
  from "1.prems" consider (self) "idxs = []" "n = Node nm props chs"
    | (below) "(idxs, n) \<in> set (preorder_list chs 0)"
    by auto
  then show ?case
  proof cases
    case self
    then show ?thesis by simp
  next
    case below
    from "1.IH" [OF this] obtain j idxs' where
      "idxs = j # idxs'" "j < length chs" "node_at (chs ! j) idxs' = Some n" by auto
    then show ?thesis by simp
  qed
next
  case (2 i)
  then show ?case by simp
next
  case (3 child rest i)
  from "3.prems" consider
    (here) idxs' where "idxs = i # idxs'" "(idxs', n) \<in> set (preorder child)"
    | (later) "(idxs, n) \<in> set (preorder_list rest (Suc i))"
    by auto
  then show ?case
  proof cases
    case here
    with "3.IH"(1) have "idxs = (i + 0) # idxs' \<and> 0 < length (child # rest) \<and>
      node_at ((child # rest) ! 0) idxs' = Some n" by simp
    then show ?thesis by blast
  next
    case later
    from "3.IH"(2) [OF this] obtain j idxs' where
      "idxs = (Suc i + j) # idxs'" "j < length rest" "node_at (rest ! j) idxs' = Some n" by blast
    then have "idxs = (i + Suc j) # idxs' \<and> Suc j < length (child # rest) \<and>
      node_at ((child # rest) ! Suc j) idxs' = Some n" by simp
    then show ?thesis by blast
  qed
qed

lemma find_compat_preorder:
  "dt_find_compat subtree s =
     map_option fst (find (\<lambda>(idxs, n). dt_check_compat_match n s) (preorder subtree))"
  "find_compat_scan chs i s =
     map_option fst (find (\<lambda>(idxs, n). dt_check_compat_match n s) (preorder_list chs i))"
  by (induction subtree s and chs i s rule: dt_find_compat_find_compat_scan.induct)
    (auto simp: find_append_if find_map_comp case_prod_unfold split: option.splits)

text \<open>
  Claim C5. \<^verbatim>\<open>dt_find_compat\<close> returns the first node in depth-first pre-order
  (the root before its children, the children in list order) whose \<^verbatim>\<open>compatible\<close>
  property has the string as one of its NUL-separated entries, and NULL when there is
  none. An entry with its NUL inside the value must equal the string; a last entry cut
  off by the property size must equal the string over the bytes scanned. The string has
  no NUL of its own, and each property has its \<open>prop_size\<close> bytes behind its pointer.
  Each path listed by \<open>preorder\<close> leads to the node listed with it.
\<close>

theorem dt_find_compat_first_preorder:
  assumes "nul_free compat_str" and "data_present subtree"
  shows "dt_find_compat subtree compat_str =
           map_option fst (find (\<lambda>(idxs, n). compat_entry_match n compat_str) (preorder subtree)) \<and>
         list_all (\<lambda>(idxs, n). node_at subtree idxs = Some n) (preorder subtree)"
proof
  have "find (\<lambda>(idxs, n). dt_check_compat_match n compat_str) (preorder subtree) =
        find (\<lambda>(idxs, n). compat_entry_match n compat_str) (preorder subtree)"
    using assms by (intro find_cong refl) (auto simp: dt_check_compat_match_entries preorder_data_present)
  then show "dt_find_compat subtree compat_str =
           map_option fst (find (\<lambda>(idxs, n). compat_entry_match n compat_str) (preorder subtree))"
    by (simp add: find_compat_preorder)
  show "list_all (\<lambda>(idxs, n). node_at subtree idxs = Some n) (preorder subtree)"
    by (auto simp: list_all_iff preorder_node_at)
qed

theorem dt_find_compat_first_preorder_witness:
  "nul_free ''foo'' \<and>
   data_present (Node ''root'' []
     [Node ''X'' [\<lparr>prop_name = ''compatible'', prop_data = [0x66, 0x6f, 0x6f, 0], prop_size = 4\<rparr>] [],
      Node ''Y'' [\<lparr>prop_name = ''compatible'', prop_data = [0x62, 0x61, 0x72, 0], prop_size = 4\<rparr>] [],
      Node ''Z'' [\<lparr>prop_name = ''compatible'', prop_data = [0x66, 0x6f, 0x6f, 0], prop_size = 4\<rparr>] []]) \<and>
   dt_find_compat (Node ''root'' []
     [Node ''X'' [\<lparr>prop_name = ''compatible'', prop_data = [0x66, 0x6f, 0x6f, 0], prop_size = 4\<rparr>] [],
      Node ''Y'' [\<lparr>prop_name = ''compatible'', prop_data = [0x62, 0x61, 0x72, 0], prop_size = 4\<rparr>] [],
      Node ''Z'' [\<lparr>prop_name = ''compatible'', prop_data = [0x66, 0x6f, 0x6f, 0], prop_size = 4\<rparr>] []])
     ''foo'' = Some [0]"
proof -
  let ?subtree = "Node ''root'' []
     [Node ''X'' [\<lparr>prop_name = ''compatible'', prop_data = [0x66, 0x6f, 0x6f, 0], prop_size = 4\<rparr>] [],
      Node ''Y'' [\<lparr>prop_name = ''compatible'', prop_data = [0x62, 0x61, 0x72, 0], prop_size = 4\<rparr>] [],
      Node ''Z'' [\<lparr>prop_name = ''compatible'', prop_data = [0x66, 0x6f, 0x6f, 0], prop_size = 4\<rparr>] []]"
  have h1: "nul_free ''foo''" by (simp add: nul_free_def)
  have h2: "data_present ?subtree" by simp
  have "map_option fst (find (\<lambda>(idxs, n). compat_entry_match n ''foo'') (preorder ?subtree)) = Some [0]"
    by code_simp
  with dt_find_compat_first_preorder [OF h1 h2] h1 h2 show ?thesis by simp
qed


lemma skip_props_unflatten:
  "skip_props blob offset = fst (unflatten_props blob offset last_pos props)"
proof (induction blob offset arbitrary: last_pos props rule: skip_props.induct)
  case (1 blob offset)
  obtain size fprop where np: "fdt_next_property blob offset = (size, fprop)"
    by (cases "fdt_next_property blob offset")
  show ?case
  proof (cases "size = 0")
    case True
    with np show ?thesis
      by (subst skip_props.simps, subst unflatten_props.simps) simp
  next
    case False
    with np "1" [of size "Suc last_pos" "list_insert_after (the fprop) last_pos props"]
    show ?thesis
      by (subst skip_props.simps, subst unflatten_props.simps) (simp add: Let_def)
  qed
qed

lemma skip_node_unflatten:
  "fdt_skip_node blob start_offset = fst (fdt_unflatten_node blob start_offset)"
  "skip_children blob offset = fst (unflatten_children blob offset last_pos chs)"
proof (induction blob start_offset and blob offset arbitrary: and last_pos chs
    rule: fdt_skip_node_skip_children.induct)
  case (1 blob start_offset)
  obtain size nm where nn: "fdt_node_name blob start_offset = (size, nm)"
    by (cases "fdt_node_name blob start_offset")
  show ?case
  proof (cases "size = 0")
    case True
    with nn show ?thesis
      by (subst fdt_skip_node.simps, subst fdt_unflatten_node.simps) simp
  next
    case False
    obtain off1 props where up: "unflatten_props blob (start_offset + size) 0 [] = (off1, props)"
      by (cases "unflatten_props blob (start_offset + size) 0 []")
    then have sp: "skip_props blob (start_offset + size) = off1"
      using skip_props_unflatten [of blob "start_offset + size" 0 "[]"] by simp
    obtain off2 chs where uc: "unflatten_children blob off1 0 [] = (off2, chs)"
      by (cases "unflatten_children blob off1 0 []")
    from nn False have nz: "fst (fdt_node_name blob start_offset) \<noteq> 0" by simp
    from "1" [OF refl nz refl refl, of 0 "[]"] nn sp
    have "skip_children blob off1 = fst (unflatten_children blob off1 0 [])" by simp
    with nn False up sp uc show ?thesis
      by (subst fdt_skip_node.simps, subst fdt_unflatten_node.simps)
        (simp add: Let_def alloc_node_def)
  qed
next
  case (2 blob offset)
  obtain size child where un: "fdt_unflatten_node blob offset = (size, child)"
    by (cases "fdt_unflatten_node blob offset")
  with "2.IH"(1) have sk: "fdt_skip_node blob offset = size" by simp
  show ?case
  proof (cases "size = 0")
    case True
    with un sk show ?thesis
      by (subst skip_children.simps, subst unflatten_children.simps) simp
  next
    case False
    with sk have nz: "fdt_skip_node blob offset \<noteq> 0" by simp
    from "2.IH"(2) [OF refl nz, of "Suc last_pos" "list_insert_after (the child) last_pos chs"] sk
    have "skip_children blob (offset + size) =
      fst (unflatten_children blob (offset + size) (Suc last_pos)
             (list_insert_after (the child) last_pos chs))"
      by simp
    with un sk False show ?thesis
      by (subst skip_children.simps, subst unflatten_children.simps) (simp add: Let_def)
  qed
qed

text \<open>
  Claim C7. \<^verbatim>\<open>fdt_next_property\<close> consumes 0 bytes and yields no property when
  the token at the offset is not the property token. At a property token of a
  well-formed blob it consumes 12 bytes plus the size rounded up to a multiple of 4 (a
  positive number below \<open>2 ^ 31\<close>); the name is the string at the header's strings
  offset plus the stored name offset, the data are the bytes of the blob right after
  the three words, and the size is the stored size.
\<close>

theorem fdt_next_property_result:
  "(be32toh blob offset \<noteq> TokenProperty \<longrightarrow> fdt_next_property blob offset = (0, None)) \<and>
   (be32toh blob offset = TokenProperty \<and> prop_in_blob blob offset \<longrightarrow>
      (\<exists>consumed prop.
         fdt_next_property blob offset = (consumed, Some prop) \<and>
         consumed = 12 + (be32toh blob (offset + 4) + 3) div 4 * 4 \<and>
         consumed mod 4 = 0 \<and> 12 + be32toh blob (offset + 4) \<le> consumed \<and>
         consumed < 12 + be32toh blob (offset + 4) + 4 \<and> 0 < consumed \<and> consumed < 2 ^ 31 \<and>
         prop_name prop =
           string_at blob (be32toh blob strings_offset_field + be32toh blob (offset + 8)) \<and>
         prop_data prop = take (be32toh blob (offset + 4)) (drop (offset + 12) blob) \<and>
         length (prop_data prop) = be32toh blob (offset + 4) \<and>
         prop_size prop = be32toh blob (offset + 4)))"
proof (intro conjI impI)
  show "fdt_next_property blob offset = (0, None)" if "be32toh blob offset \<noteq> TokenProperty"
    using that by (simp add: fdt_next_property_def)
next
  assume a: "be32toh blob offset = TokenProperty \<and> prop_in_blob blob offset"
  let ?size = "be32toh blob (offset + 4)"
  let ?consumed = "12 + (?size + 3) div 4 * 4"
  let ?name_offset = "be32toh blob strings_offset_field + be32toh blob (offset + 8)"
  let ?fprop = "\<lparr>prop_name = string_at blob ?name_offset,
                prop_data = take ?size (drop (offset + 12) blob), prop_size = ?size\<rparr>"
  from a have b0: "length blob < 2 ^ 31" "offset + 12 + (?size + 4 - 1) div 4 * 4 \<le> length blob"
    "?name_offset < length blob"
    unfolding prop_in_blob_def size32_def by blast+
  have "(?size + 4 - 1) div 4 = (?size + 3) div 4" by simp
  with b0 have b: "length blob < 2 ^ 31" "offset + ?consumed \<le> length blob"
    "?name_offset < length blob"
    by simp_all
  then have "?name_offset mod 2 ^ 32 = ?name_offset" by simp
  with a have r: "fdt_next_property blob offset = (?consumed, Some ?fprop)"
    by (simp add: fdt_next_property_def size32_def Let_def add.commute)
  have "?consumed mod 4 = 0" "12 + ?size \<le> ?consumed" "?consumed < 12 + ?size + 4" "0 < ?consumed"
    by presburger+
  moreover from b have "?consumed < 2 ^ 31" by linarith
  moreover from b \<open>12 + ?size \<le> ?consumed\<close> have "length (prop_data ?fprop) = ?size" by simp
  ultimately show "\<exists>consumed prop.
         fdt_next_property blob offset = (consumed, Some prop) \<and>
         consumed = 12 + (be32toh blob (offset + 4) + 3) div 4 * 4 \<and>
         consumed mod 4 = 0 \<and> 12 + be32toh blob (offset + 4) \<le> consumed \<and>
         consumed < 12 + be32toh blob (offset + 4) + 4 \<and> 0 < consumed \<and> consumed < 2 ^ 31 \<and>
         prop_name prop =
           string_at blob (be32toh blob strings_offset_field + be32toh blob (offset + 8)) \<and>
         prop_data prop = take (be32toh blob (offset + 4)) (drop (offset + 12) blob) \<and>
         length (prop_data prop) = be32toh blob (offset + 4) \<and>
         prop_size prop = be32toh blob (offset + 4)"
    using r by (intro exI [of _ ?consumed] exI [of _ ?fprop]) simp
qed


theorem fdt_next_property_result_witness:
  "be32toh
       [0,0,0,0, 0,0,0,0, 0,0,0,0, 0,0,0,56, 0,0,0,0, 0,0,0,0, 0,0,0,0, 0,0,0,0, 0,0,0,0, 0,0,0,0,
        0,0,0,3, 0,0,0,2, 0,0,0,2, 7,8,0,0, 0x61,0,0x78,0] 40 = TokenProperty \<and>
   prop_in_blob [0,0,0,0, 0,0,0,0, 0,0,0,0, 0,0,0,56, 0,0,0,0, 0,0,0,0, 0,0,0,0, 0,0,0,0, 0,0,0,0, 0,0,0,0,
        0,0,0,3, 0,0,0,2, 0,0,0,2, 7,8,0,0, 0x61,0,0x78,0] 40 \<and>
   fdt_next_property [0,0,0,0, 0,0,0,0, 0,0,0,0, 0,0,0,56, 0,0,0,0, 0,0,0,0, 0,0,0,0, 0,0,0,0, 0,0,0,0, 0,0,0,0,
        0,0,0,3, 0,0,0,2, 0,0,0,2, 7,8,0,0, 0x61,0,0x78,0] 40 =
     (16, Some \<lparr>prop_name = ''x'', prop_data = [7, 8], prop_size = 2\<rparr>) \<and>
   be32toh
       [0,0,0,0, 0,0,0,0, 0,0,0,0, 0,0,0,56, 0,0,0,0, 0,0,0,0, 0,0,0,0, 0,0,0,0, 0,0,0,0, 0,0,0,0,
        0,0,0,3, 0,0,0,2, 0,0,0,2, 7,8,0,0, 0x61,0,0x78,0] 44 \<noteq> TokenProperty \<and>
   fdt_next_property [0,0,0,0, 0,0,0,0, 0,0,0,0, 0,0,0,56, 0,0,0,0, 0,0,0,0, 0,0,0,0, 0,0,0,0, 0,0,0,0, 0,0,0,0,
        0,0,0,3, 0,0,0,2, 0,0,0,2, 7,8,0,0, 0x61,0,0x78,0] 44 = (0, None)"
proof -
  let ?blob = "[0,0,0,0, 0,0,0,0, 0,0,0,0, 0,0,0,56, 0,0,0,0, 0,0,0,0, 0,0,0,0, 0,0,0,0, 0,0,0,0, 0,0,0,0,
        0,0,0,3, 0,0,0,2, 0,0,0,2, 7,8,0,0, 0x61,0,0x78,0] :: byte list"
  have h1: "be32toh ?blob 40 = TokenProperty"
    by (simp add: be32toh_def byte_at_def TokenProperty_def)
  have h2: "prop_in_blob ?blob 40"
    by (simp add: prop_in_blob_def be32toh_def byte_at_def size32_def strings_offset_field_def)
  have h3: "be32toh ?blob 44 \<noteq> TokenProperty"
    by (simp add: be32toh_def byte_at_def TokenProperty_def)
  from fdt_next_property_result [of ?blob 44] h3
  have r2: "fdt_next_property ?blob 44 = (0, None)" by blast
  from fdt_next_property_result [of ?blob 40] h1 h2
  have "\<exists>prop. fdt_next_property ?blob 40 = (12 + (be32toh ?blob (40 + 4) + 3) div 4 * 4, Some prop) \<and>
     prop_name prop =
       string_at ?blob (be32toh ?blob strings_offset_field + be32toh ?blob (40 + 8)) \<and>
     prop_data prop = take (be32toh ?blob (40 + 4)) (drop (40 + 12) ?blob) \<and>
     prop_size prop = be32toh ?blob (40 + 4)"
    by auto
  then obtain fprop where
    p: "fdt_next_property ?blob 40 = (12 + (be32toh ?blob (40 + 4) + 3) div 4 * 4, Some fprop)"
       "prop_name fprop =
          string_at ?blob (be32toh ?blob strings_offset_field + be32toh ?blob (40 + 8))"
       "prop_data fprop = take (be32toh ?blob (40 + 4)) (drop (40 + 12) ?blob)"
       "prop_size fprop = be32toh ?blob (40 + 4)"
    by blast
  from p(2-4) have "fprop = \<lparr>prop_name = ''x'', prop_data = [7, 8], prop_size = 2\<rparr>"
    by (cases fprop)
      (simp add: be32toh_def byte_at_def strings_offset_field_def string_at_def char_of_def
        bit_Suc_0_iff)
  with p(1) have r1: "fdt_next_property ?blob 40 =
     (16, Some \<lparr>prop_name = ''x'', prop_data = [7, 8], prop_size = 2\<rparr>)"
    by (simp add: be32toh_def byte_at_def)
  from h1 h2 h3 r1 r2 show ?thesis by blast
qed

text \<open>
  Claim C9. \<^verbatim>\<open>fdt_skip_node\<close> returns the number of bytes that
  \<^verbatim>\<open>fdt_unflatten_node\<close> returns at the same offset of the same blob, and both
  return 0 when the token there is not a begin-node token.
\<close>

theorem fdt_skip_node_unflatten_size:
  "fdt_skip_node blob offset = fst (fdt_unflatten_node blob offset) \<and>
   (be32toh blob offset \<noteq> TokenBeginNode \<longrightarrow>
      fdt_skip_node blob offset = 0 \<and> fdt_unflatten_node blob offset = (0, None))"
proof
  show "fdt_skip_node blob offset = fst (fdt_unflatten_node blob offset)"
    by (rule skip_node_unflatten)
  show "be32toh blob offset \<noteq> TokenBeginNode \<longrightarrow>
      fdt_skip_node blob offset = 0 \<and> fdt_unflatten_node blob offset = (0, None)"
    by (subst fdt_skip_node.simps, subst fdt_unflatten_node.simps)
      (simp add: fdt_node_name_def)
qed


theorem fdt_skip_node_unflatten_size_witness:
  "fdt_skip_node [0,0,0,1, 0x61,0,0,0, 0,0,0,3, 0,0,0,2, 0,0,0,0, 7,8,0,0, 0,0,0,2, 0,0,0,9] 0 = 28 \<and>
   fst (fdt_unflatten_node
     [0,0,0,1, 0x61,0,0,0, 0,0,0,3, 0,0,0,2, 0,0,0,0, 7,8,0,0, 0,0,0,2, 0,0,0,9] 0) = 28 \<and>
   be32toh [0,0,0,1, 0x61,0,0,0, 0,0,0,3, 0,0,0,2, 0,0,0,0, 7,8,0,0, 0,0,0,2, 0,0,0,9] 8
     \<noteq> TokenBeginNode \<and>
   fdt_skip_node [0,0,0,1, 0x61,0,0,0, 0,0,0,3, 0,0,0,2, 0,0,0,0, 7,8,0,0, 0,0,0,2, 0,0,0,9] 8 = 0"
proof -
  let ?blob = "[0,0,0,1, 0x61,0,0,0, 0,0,0,3, 0,0,0,2, 0,0,0,0, 7,8,0,0, 0,0,0,2, 0,0,0,9] :: byte list"
  have h: "be32toh ?blob 8 \<noteq> TokenBeginNode"
    by (simp add: be32toh_def byte_at_def TokenBeginNode_def)
  have "fdt_skip_node ?blob 0 = 28"
    by (simp add: fdt_next_property_def fdt_node_name_def be32toh_def byte_at_def
        TokenProperty_def TokenBeginNode_def size32_def strlen_at_def string_at_def Let_def
        strings_offset_field_def fdt_skip_node.simps skip_children.simps skip_props.simps)
  with fdt_skip_node_unflatten_size [of ?blob 0] fdt_skip_node_unflatten_size [of ?blob 8] h
  show ?thesis by simp
qed


subsection \<open>Flattening and reading back\<close>

lemma dt_flat_prop_size_len:
  "dt_flat_prop_size p (a, b) =
     ((a + prop_struct_len p) mod 2 ^ 32, (b + (length (prop_name p) + 1)) mod 2 ^ 32)"
  by (simp add: dt_flat_prop_size_def prop_struct_len_def Let_def mod_simps add.assoc)

lemma fold_flat_prop_size:
  "a < 2 ^ 32 \<Longrightarrow> b < 2 ^ 32 \<Longrightarrow>
   fold (\<lambda>prop sizes. dt_flat_prop_size prop sizes) ps (a, b) =
     ((a + props_struct_len ps) mod 2 ^ 32, (b + props_strings_len ps) mod 2 ^ 32)"
proof (induction ps arbitrary: a b)
  case Nil
  then show ?case by (simp add: props_struct_len_def props_strings_len_def)
next
  case (Cons p ps)
  have "(a + prop_struct_len p) mod 2 ^ 32 < (2 ^ 32 :: nat)"
    "(b + (length (prop_name p) + 1)) mod 2 ^ 32 < (2 ^ 32 :: nat)" by simp_all
  from Cons.IH [OF this] show ?case
    by (simp add: dt_flat_prop_size_len props_struct_len_def props_strings_len_def mod_simps
        add.assoc)
qed

lemma size32_bound: "n \<le> size32 n * 4"
  by (simp add: size32_def)

lemma struct_len_child:
  "c \<in> set chs \<Longrightarrow> struct_len c \<le> struct_len (Node nm props chs)"
  using member_le_sum_list [of "struct_len c" "map struct_len chs"] by simp

lemma struct_len_name:
  "struct_len (Node nm props chs) < 2 ^ 32 \<Longrightarrow>
   (length nm + 1) mod 2 ^ 32 = length nm + 1 \<and>
   (size32 (length nm + 1) * 4) mod 2 ^ 32 = size32 (length nm + 1) * 4"
  using size32_bound [of "length nm + 1"] by simp

lemma dt_flat_node_size_len:
  "struct_len n < 2 ^ 32 \<Longrightarrow> a < 2 ^ 32 \<Longrightarrow> b < 2 ^ 32 \<Longrightarrow>
   dt_flat_node_size n (a, b) = ((a + struct_len n) mod 2 ^ 32, (b + strings_len n) mod 2 ^ 32)"
proof (induction n arbitrary: a b)
  case (Node nm props chs)
  have small: "struct_len c < 2 ^ 32" if "c \<in> set chs" for c
    using struct_len_child [OF that, of nm props] Node.prems(1) by simp
  note nm = struct_len_name [OF Node.prems(1)]
  have chs: "fold (\<lambda>child sizes. dt_flat_node_size child sizes) cs (x, y) =
       ((x + sum_list (map struct_len cs)) mod 2 ^ 32, (y + sum_list (map strings_len cs)) mod 2 ^ 32)"
    if "set cs \<subseteq> set chs" "x < 2 ^ 32" "y < 2 ^ 32" for cs x y
    using that
  proof (induction cs arbitrary: x y)
    case Nil
    then show ?case by simp
  next
    case (Cons c cs)
    then have c: "c \<in> set chs" and cs: "set cs \<subseteq> set chs" by auto
    have lt: "(x + struct_len c) mod 2 ^ 32 < (2 ^ 32 :: nat)"
      "(y + strings_len c) mod 2 ^ 32 < (2 ^ 32 :: nat)" by simp_all
    from Node.IH [OF c small [OF c] Cons.prems(2,3)] Cons.IH [OF cs lt] show ?case
      by (simp add: mod_simps add.assoc)
  qed
  have lt: "(a + 4 + size32 (length nm + 1) * 4 + props_struct_len props) mod 2 ^ 32 < (2 ^ 32 :: nat)"
    "(b + props_strings_len props) mod 2 ^ 32 < (2 ^ 32 :: nat)" by simp_all
  have pr: "fold (\<lambda>prop sizes. dt_flat_prop_size prop sizes) props
       (((a + 4) mod 2 ^ 32 + size32 (length nm + 1) * 4) mod 2 ^ 32, b) =
     ((a + 4 + size32 (length nm + 1) * 4 + props_struct_len props) mod 2 ^ 32,
      (b + props_strings_len props) mod 2 ^ 32)"
    using Node.prems by (subst fold_flat_prop_size) (simp_all add: mod_simps)
  show ?case
    by (simp only: dt_flat_node_size.simps Let_def conjunct1 [OF nm] pr prod.case
        chs [OF subset_refl lt])
      (simp add: mod_simps add.assoc add.commute add.left_commute)
qed

lemma put_bytes_outside:
  "i < dest \<or> dest + length bs \<le> i \<Longrightarrow> put_bytes mem dest bs i = mem i"
  by (auto simp: put_bytes_def)

lemma put_bytes_inside:
  "dest \<le> i \<Longrightarrow> i < dest + length bs \<Longrightarrow> put_bytes mem dest bs i = bs ! (i - dest)"
  by (simp add: put_bytes_def)

lemma length_htobe32 [simp]: "length (htobe32 v) = 4"
  by (simp add: htobe32_def)

lemma dt_flatten_prop_cursor:
  "prop_struct_len p < 2 ^ 32 \<Longrightarrow>
   \<exists>mem'. dt_flatten_prop p sb (mem, ds, dstr) =
      (mem', ds + prop_struct_len p, dstr + (length (prop_name p) + 1)) \<and>
    writes_within mem mem' ds (ds + prop_struct_len p) dstr (dstr + (length (prop_name p) + 1))"
proof -
  assume "prop_struct_len p < 2 ^ 32"
  then have m: "(size32 (prop_size p) * 4) mod 2 ^ 32 = size32 (prop_size p) * 4"
    by (simp add: prop_struct_len_def)
  show ?thesis
    unfolding dt_flatten_prop_def Let_def m
    using size32_bound [of "prop_size p"]
    by (auto simp: prop_struct_len_def writes_within_def put_bytes_def memcpy_def strcpy_def)
qed

lemma writes_within_trans:
  "writes_within m1 m2 s s' t t' \<Longrightarrow> writes_within m2 m3 s' s'' t' t'' \<Longrightarrow>
   s \<le> s' \<Longrightarrow> s' \<le> s'' \<Longrightarrow> t \<le> t' \<Longrightarrow> t' \<le> t'' \<Longrightarrow>
   writes_within m1 m3 s s'' t t''"
  by (auto simp: writes_within_def)

lemma props_struct_len_Cons: "props_struct_len (p # ps) = prop_struct_len p + props_struct_len ps"
  by (simp add: props_struct_len_def)

lemma props_strings_len_Cons:
  "props_strings_len (p # ps) = length (prop_name p) + 1 + props_strings_len ps"
  by (simp add: props_strings_len_def)

lemma fold_flatten_prop_cursor:
  "props_struct_len ps < 2 ^ 32 \<Longrightarrow>
   \<exists>mem'. fold (\<lambda>prop st. dt_flatten_prop prop sb st) ps (mem, ds, dstr) =
      (mem', ds + props_struct_len ps, dstr + props_strings_len ps) \<and>
    writes_within mem mem' ds (ds + props_struct_len ps) dstr (dstr + props_strings_len ps)"
proof (induction ps arbitrary: mem ds dstr)
  case Nil
  then show ?case by (simp add: props_struct_len_def props_strings_len_def writes_within_def)
next
  case (Cons p ps)
  from Cons.prems have small: "prop_struct_len p < 2 ^ 32" "props_struct_len ps < 2 ^ 32"
    by (simp_all add: props_struct_len_Cons)
  from dt_flatten_prop_cursor [OF small(1), of sb mem ds dstr] obtain m1 where
    m1: "dt_flatten_prop p sb (mem, ds, dstr) =
      (m1, ds + prop_struct_len p, dstr + (length (prop_name p) + 1))"
    "writes_within mem m1 ds (ds + prop_struct_len p) dstr (dstr + (length (prop_name p) + 1))"
    by blast
  from Cons.IH [OF small(2), of m1 "ds + prop_struct_len p" "dstr + (length (prop_name p) + 1)"]
  obtain m2 where
    m2: "fold (\<lambda>prop st. dt_flatten_prop prop sb st) ps
          (m1, ds + prop_struct_len p, dstr + (length (prop_name p) + 1)) =
        (m2, ds + prop_struct_len p + props_struct_len ps,
             dstr + (length (prop_name p) + 1) + props_strings_len ps)"
    "writes_within m1 m2 (ds + prop_struct_len p) (ds + prop_struct_len p + props_struct_len ps)
       (dstr + (length (prop_name p) + 1)) (dstr + (length (prop_name p) + 1) + props_strings_len ps)"
    by blast
  from writes_within_trans [OF m1(2) m2(2)]
  have "writes_within mem m2 ds (ds + prop_struct_len p + props_struct_len ps) dstr
      (dstr + (length (prop_name p) + 1) + props_strings_len ps)" by simp
  with m1(1) m2(1) show ?case
    by (simp add: props_struct_len_def props_strings_len_def add.assoc)
qed

lemma fold_flatten_node_cursor:
  assumes "\<And>c mem ds dstr. c \<in> set cs \<Longrightarrow>
      \<exists>mem'. dt_flatten_node c sb (mem, ds, dstr) = (mem', ds + struct_len c, dstr + strings_len c) \<and>
        writes_within mem mem' ds (ds + struct_len c) dstr (dstr + strings_len c)"
  shows "\<exists>mem'. fold (\<lambda>child st. dt_flatten_node child sb st) cs (m, s, t) =
        (mem', s + sum_list (map struct_len cs), t + sum_list (map strings_len cs)) \<and>
      writes_within m mem' s (s + sum_list (map struct_len cs)) t (t + sum_list (map strings_len cs))"
  using assms
proof (induction cs arbitrary: m s t)
  case Nil
  then show ?case by (simp add: writes_within_def)
next
  case (Cons c cs)
  from Cons.prems [of c m s t] obtain ma where
    ma: "dt_flatten_node c sb (m, s, t) = (ma, s + struct_len c, t + strings_len c)"
        "writes_within m ma s (s + struct_len c) t (t + strings_len c)" by auto
  have "\<exists>mem'. fold (\<lambda>child st. dt_flatten_node child sb st) cs
           (ma, s + struct_len c, t + strings_len c) =
        (mem', s + struct_len c + sum_list (map struct_len cs),
               t + strings_len c + sum_list (map strings_len cs)) \<and>
      writes_within ma mem' (s + struct_len c) (s + struct_len c + sum_list (map struct_len cs))
        (t + strings_len c) (t + strings_len c + sum_list (map strings_len cs))"
    by (rule Cons.IH) (rule Cons.prems, simp)
  then obtain mb where
    mb: "fold (\<lambda>child st. dt_flatten_node child sb st) cs (ma, s + struct_len c, t + strings_len c) =
          (mb, s + struct_len c + sum_list (map struct_len cs),
               t + strings_len c + sum_list (map strings_len cs))"
        "writes_within ma mb (s + struct_len c) (s + struct_len c + sum_list (map struct_len cs))
           (t + strings_len c) (t + strings_len c + sum_list (map strings_len cs))" by blast
  from writes_within_trans [OF ma(2) mb(2)]
  have "writes_within m mb s (s + struct_len c + sum_list (map struct_len cs)) t
      (t + strings_len c + sum_list (map strings_len cs))" by simp
  with ma(1) mb(1) show ?case by (simp add: add.assoc)
qed

lemma dt_flatten_node_cursor:
  "struct_len n < 2 ^ 32 \<Longrightarrow>
   \<exists>mem'. dt_flatten_node n sb (mem, ds, dstr) = (mem', ds + struct_len n, dstr + strings_len n) \<and>
    writes_within mem mem' ds (ds + struct_len n) dstr (dstr + strings_len n)"
proof (induction n arbitrary: mem ds dstr)
  case (Node nm props chs)
  have small: "struct_len c < 2 ^ 32" if "c \<in> set chs" for c
    using struct_len_child [OF that, of nm props] Node.prems(1) by simp
  note nm = struct_len_name [OF Node.prems(1)]
  from Node.prems have psmall: "props_struct_len props < 2 ^ 32" by simp
  let ?m1 = "strcpy (put_bytes mem ds (htobe32 TokenBeginNode)) (ds + 4) nm"
  let ?d1 = "ds + 4 + size32 (length nm + 1) * 4"
  have w1: "writes_within mem ?m1 ds ?d1 dstr dstr"
    using size32_bound [of "length nm + 1"]
    by (auto simp: writes_within_def strcpy_def put_bytes_def)
  from fold_flatten_prop_cursor [OF psmall, of sb ?m1 ?d1 dstr] obtain m2 where
    m2: "fold (\<lambda>prop st. dt_flatten_prop prop sb st) props (?m1, ?d1, dstr) =
          (m2, ?d1 + props_struct_len props, dstr + props_strings_len props)"
        "writes_within ?m1 m2 ?d1 (?d1 + props_struct_len props) dstr (dstr + props_strings_len props)"
    by blast
  have "\<exists>mem'. fold (\<lambda>child st. dt_flatten_node child sb st) chs
           (m2, ?d1 + props_struct_len props, dstr + props_strings_len props) =
         (mem', ?d1 + props_struct_len props + sum_list (map struct_len chs),
              dstr + props_strings_len props + sum_list (map strings_len chs)) \<and>
        writes_within m2 mem' (?d1 + props_struct_len props)
           (?d1 + props_struct_len props + sum_list (map struct_len chs))
           (dstr + props_strings_len props)
           (dstr + props_strings_len props + sum_list (map strings_len chs))"
    by (rule fold_flatten_node_cursor) (rule Node.IH, assumption, rule small)
  then obtain m3 where
    m3: "fold (\<lambda>child st. dt_flatten_node child sb st) chs
           (m2, ?d1 + props_struct_len props, dstr + props_strings_len props) =
         (m3, ?d1 + props_struct_len props + sum_list (map struct_len chs),
              dstr + props_strings_len props + sum_list (map strings_len chs))"
        "writes_within m2 m3 (?d1 + props_struct_len props)
           (?d1 + props_struct_len props + sum_list (map struct_len chs))
           (dstr + props_strings_len props)
           (dstr + props_strings_len props + sum_list (map strings_len chs))" by blast
  let ?d3 = "?d1 + props_struct_len props + sum_list (map struct_len chs)"
  let ?m4 = "put_bytes m3 ?d3 (htobe32 TokenEndNode)"
  have w4: "writes_within m3 ?m4 ?d3 (?d3 + 4)
      (dstr + props_strings_len props + sum_list (map strings_len chs))
      (dstr + props_strings_len props + sum_list (map strings_len chs))"
    by (auto simp: writes_within_def put_bytes_def)
  from writes_within_trans [OF writes_within_trans [OF writes_within_trans [OF w1 m2(2)] m3(2)] w4]
  have "writes_within mem ?m4 ds (?d3 + 4) dstr
      (dstr + props_strings_len props + sum_list (map strings_len chs))" by simp
  moreover have "dt_flatten_node (Node nm props chs) sb (mem, ds, dstr) =
     (?m4, ?d3 + 4, dstr + props_strings_len props + sum_list (map strings_len chs))"
    by (simp only: dt_flatten_node.simps Let_def nm m2(1) prod.case m3(1))
  ultimately show ?case by (simp add: add.assoc)
qed

lemma byte_at_image_of: "byte_at (image_of mem n) i = (if i < n then mem i else 0)"
  by (simp add: byte_at_def image_of_def)

lemma be32_of_htobe32:
  "unat (htobe32 v ! 0) * 2 ^ 24 + unat (htobe32 v ! 1) * 2 ^ 16 + unat (htobe32 v ! 2) * 2 ^ 8
     + unat (htobe32 v ! 3) = v mod 2 ^ 32"
proof -
  have u: "unat (of_nat x :: byte) = x mod 256" for x
    by (simp add: unat_of_nat)
  have "v mod 2 ^ 32 = v mod (16777216 * 256)" by simp
  also have "\<dots> = 16777216 * (v div 16777216 mod 256) + v mod 16777216"
    by (rule mod_mult2_eq)
  also have "v mod 16777216 = v mod (65536 * 256)" by simp
  also have "\<dots> = 65536 * (v div 65536 mod 256) + v mod 65536"
    by (rule mod_mult2_eq)
  also have "v mod 65536 = v mod (256 * 256)" by simp
  also have "\<dots> = 256 * (v div 256 mod 256) + v mod 256"
    by (rule mod_mult2_eq)
  finally show ?thesis
    by (simp add: htobe32_def u)
qed

lemma be32toh_stored:
  assumes "\<And>j. j < 4 \<Longrightarrow> byte_at blob (off + j) = htobe32 v ! j"
  shows "be32toh blob off = v mod 2 ^ 32"
proof -
  from assms [of 0] assms [of 1] assms [of 2] assms [of 3]
  have "be32toh blob off = unat (htobe32 v ! 0) * 2 ^ 24 + unat (htobe32 v ! 1) * 2 ^ 16
      + unat (htobe32 v ! 2) * 2 ^ 8 + unat (htobe32 v ! 3)"
    by (simp add: be32toh_def)
  then show ?thesis by (simp only: be32_of_htobe32)
qed

lemma fold_reserve_size:
  "fold (\<lambda>entry size. (size + 16) mod 2 ^ 32) rm a = (if rm = [] then a else (a + 16 * length rm) mod 2 ^ 32)"
proof (induction rm arbitrary: a)
  case Nil
  then show ?case by simp
next
  case (Cons e rm)
  then show ?case by (simp add: mod_simps add.assoc)
qed

lemma fold_flatten_map_entry_cursor:
  "\<exists>mem'. fold dt_flatten_map_entry rm (mem, d) = (mem', d + 16 * length rm) \<and>
     (\<forall>i. i < d \<or> d + 16 * length rm \<le> i \<longrightarrow> mem' i = mem i)"
proof (induction rm arbitrary: mem d)
  case Nil
  then show ?case by simp
next
  case (Cons e rm)
  let ?m1 = "put_bytes (put_bytes mem d (htobe64 (entry_start e))) (d + 8) (htobe64 (entry_size e))"
  from Cons.IH [of ?m1 "d + 16"] obtain m2 where
    m2: "fold dt_flatten_map_entry rm (?m1, d + 16) = (m2, d + 16 + 16 * length rm)"
        "\<forall>i. i < d + 16 \<or> d + 16 + 16 * length rm \<le> i \<longrightarrow> m2 i = ?m1 i" by blast
  have "\<forall>i. i < d \<or> d + 16 * length (e # rm) \<le> i \<longrightarrow> m2 i = mem i"
    using m2(2) by (auto simp: put_bytes_def htobe64_def)
  moreover have "dt_flatten_map_entry e (mem, d) = (?m1, d + 16)"
    by (simp add: dt_flatten_map_entry_def Let_def)
  ultimately show ?case using m2(1)
    by (simp add: add.assoc)
qed

lemma dt_flat_size_len:
  assumes "root tree = Some root_node" and "flat_len tree root_node < 2 ^ 32"
  shows "dt_flat_size tree = Some (flat_len tree root_node)"
    and "dt_flat_node_size root_node (0, 0) = (struct_len root_node, strings_len root_node)"
proof -
  from assms(2) have b: "struct_len root_node < 2 ^ 32" "strings_len root_node < 2 ^ 32"
    "header_size tree < 2 ^ 32"
    by (simp_all add: flat_len_def)
  then show sz: "dt_flat_node_size root_node (0, 0) = (struct_len root_node, strings_len root_node)"
    by (simp add: dt_flat_node_size_len)
  have "fold (\<lambda>entry size. (size + 16) mod 2 ^ 32) (reserve_map tree) (header_size tree) =
      (header_size tree + 16 * length (reserve_map tree)) mod 2 ^ 32"
    using b(3) by (simp only: fold_reserve_size) simp
  with assms sz b(3) show "dt_flat_size tree = Some (flat_len tree root_node)"
    by (simp add: dt_flat_size_def Let_def flat_len_def mod_simps add.assoc)
qed


lemma stored_iff: "stored mem off bs \<longleftrightarrow> (\<forall>j < length bs. mem (off + j) = bs ! j)"
  by (auto simp: stored_def list_all_iff)

lemma stored_be32toh:
  "stored (byte_at blob) off (htobe32 v) \<Longrightarrow> be32toh blob off = v mod 2 ^ 32"
  by (rule be32toh_stored) (simp add: stored_iff)

lemma stored_token:
  "stored (byte_at blob) off (htobe32 v) \<Longrightarrow> v < 2 ^ 32 \<Longrightarrow> be32toh blob off = v"
  by (simp add: stored_be32toh)

lemma stored_cstring:
  "stored (byte_at blob) off (bs @ [0]) \<Longrightarrow> 0 \<notin> set bs \<Longrightarrow>
   takeWhile (\<lambda>b. b \<noteq> 0) (drop off blob) = bs"
proof (induction bs arbitrary: off)
  case Nil
  then have z: "byte_at blob off = 0" by (simp add: stored_iff)
  show ?case
  proof (cases "off < length blob")
    case True
    with z have "blob ! off = 0" by (simp add: byte_at_def)
    with True show ?thesis by (simp add: Cons_nth_drop_Suc [symmetric])
  next
    case False
    then show ?thesis by simp
  qed
next
  case (Cons b bs)
  from Cons.prems have b: "byte_at blob off = b" "b \<noteq> 0"
    using stored_iff [of "byte_at blob" off "(b # bs) @ [0]"] by auto
  then have lt: "off < length blob" by (auto simp: byte_at_def split: if_splits)
  with b have hd: "blob ! off = b" by (simp add: byte_at_def)
  have "stored (byte_at blob) (Suc off) (bs @ [0])"
    unfolding stored_iff
  proof (intro allI impI)
    fix j assume "j < length (bs @ [0])"
    with Cons.prems(1) [unfolded stored_iff, rule_format, of "Suc j"]
    show "byte_at blob (Suc off + j) = (bs @ [0]) ! j" by simp
  qed
  with Cons have "takeWhile (\<lambda>b. b \<noteq> 0) (drop (Suc off) blob) = bs" by simp
  with lt hd b show ?case by (simp add: Cons_nth_drop_Suc [symmetric])
qed

lemma stored_string:
  assumes "stored (byte_at blob) off (map of_char s @ [0])" and "nul_free s"
  shows "string_at blob off = s" and "strlen_at blob off = length s"
proof -
  from assms(2) have "0 \<notin> set (map of_char s :: byte list)"
    by (auto simp: nul_free_def list_all_iff)
  from stored_cstring [OF assms(1) this]
  have t: "takeWhile (\<lambda>b. b \<noteq> 0) (drop off blob) = map of_char s" .
  then show "strlen_at blob off = length s" by (simp add: strlen_at_def)
  from t show "string_at blob off = s"
    by (simp add: string_at_def o_def c1 map_idI)
qed

lemma stored_data:
  assumes "stored (byte_at blob) off bs" and "off + length bs \<le> length blob"
  shows "take (length bs) (drop off blob) = bs"
proof (rule nth_equalityI)
  show "length (take (length bs) (drop off blob)) = length bs" using assms(2) by simp
next
  fix i assume "i < length (take (length bs) (drop off blob))"
  then have i: "i < length bs" by simp
  with assms(1) have "byte_at blob (off + i) = bs ! i" by (simp add: stored_iff)
  with i assms(2) show "take (length bs) (drop off blob) ! i = bs ! i"
    by (simp add: byte_at_def)
qed

lemma read_prop:
  assumes "enc_prop (byte_at blob) (length blob) sb ds dstr p"
    and "be32toh blob strings_offset_field = sb" and "length blob < 2 ^ 32" and "wf_prop p"
  shows "fdt_next_property blob ds = (prop_struct_len p, Some p)"
proof -
  from assms(1) have e:
    "stored (byte_at blob) ds (htobe32 TokenProperty)"
    "stored (byte_at blob) (ds + 4) (htobe32 (prop_size p))"
    "stored (byte_at blob) (ds + 8) (htobe32 ((dstr - sb) mod 2 ^ 32))"
    "stored (byte_at blob) (ds + 12) (prop_data p)"
    "stored (byte_at blob) dstr (map of_char (prop_name p) @ [0])"
    "ds + prop_struct_len p \<le> length blob" "sb \<le> dstr"
    "dstr + (length (prop_name p) + 1) \<le> length blob"
    by (simp_all add: enc_prop_def)
  from assms(4) have wf: "nul_free (prop_name p)" "length (prop_data p) = prop_size p"
    by (simp_all add: wf_prop_def)
  have tok: "be32toh blob ds = TokenProperty"
    using e(1) by (rule stored_token) (simp add: TokenProperty_def)
  from e(6) size32_bound [of "prop_size p"] assms(3)
  have szb: "prop_size p < 2 ^ 32" "ds + 12 + prop_size p \<le> length blob"
    by (simp_all add: prop_struct_len_def)
  have sz: "be32toh blob (ds + 4) = prop_size p"
    using e(2) szb(1) by (rule stored_token)
  from e(7,8) assms(3) have nb: "dstr - sb < 2 ^ 32" "dstr < 2 ^ 32" by simp_all
  have no: "be32toh blob (ds + 8) = dstr - sb"
    using stored_be32toh [OF e(3)] nb(1) by simp
  from e(7) nb(2) have nm_off: "(dstr - sb + sb) mod 2 ^ 32 = dstr" by simp
  have nm: "string_at blob dstr = prop_name p" using e(5) wf(1) by (rule stored_string)
  have dat: "take (prop_size p) (drop (ds + 12) blob) = prop_data p"
    using stored_data [OF e(4)] szb(2) wf(2) by simp
  show ?thesis
    unfolding fdt_next_property_def
    by (simp only: tok sz no assms(2) nm_off nm dat Let_def prop_struct_len_def)
      (simp add: add.commute)
qed

lemma list_insert_after_end: "list_insert_after x (length xs) xs = xs @ [x]"
  by (simp add: list_insert_after_def)

lemma prop_struct_len_pos: "0 < prop_struct_len p"
  by (simp add: prop_struct_len_def)

lemma read_props:
  "enc_props (byte_at blob) (length blob) sb ds dstr ps \<Longrightarrow>
   be32toh blob strings_offset_field = sb \<Longrightarrow> length blob < 2 ^ 32 \<Longrightarrow>
   list_all wf_prop ps \<Longrightarrow>
   be32toh blob (ds + props_struct_len ps) \<noteq> TokenProperty \<Longrightarrow>
   unflatten_props blob ds (length acc) acc = (ds + props_struct_len ps, acc @ ps)"
proof (induction ps arbitrary: ds dstr acc)
  case Nil
  then have "fdt_next_property blob ds = (0, None)"
    by (simp add: fdt_next_property_def props_struct_len_def)
  then show ?case
    by (subst unflatten_props.simps) (simp add: props_struct_len_def)
next
  case (Cons p ps)
  from Cons.prems have e: "enc_prop (byte_at blob) (length blob) sb ds dstr p"
    "enc_props (byte_at blob) (length blob) sb (ds + prop_struct_len p)
       (dstr + (length (prop_name p) + 1)) ps"
    and wf: "wf_prop p" "list_all wf_prop ps"
    and stop: "be32toh blob (ds + prop_struct_len p + props_struct_len ps) \<noteq> TokenProperty"
    by (simp_all add: props_struct_len_def add.assoc)
  have np: "fdt_next_property blob ds = (prop_struct_len p, Some p)"
    using e(1) Cons.prems(2,3) wf(1) by (rule read_prop)
  from Cons.IH [OF e(2) Cons.prems(2,3) wf(2) stop, of "acc @ [p]"]
  have "unflatten_props blob (ds + prop_struct_len p) (Suc (length acc)) (acc @ [p]) =
      (ds + prop_struct_len p + props_struct_len ps, acc @ p # ps)" by simp
  with np prop_struct_len_pos [of p] show ?case
    by (subst unflatten_props.simps)
      (simp add: Let_def list_insert_after_end props_struct_len_def add.assoc)
qed

lemma struct_len_pos: "0 < struct_len n"
  by (cases n) simp

lemma enc_nodes_next_token:
  assumes "enc_nodes (byte_at blob) len sb d t cs"
    and "stored (byte_at blob) (d + sum_list (map struct_len cs)) (htobe32 TokenEndNode)"
  shows "be32toh blob d \<noteq> TokenProperty"
proof (cases cs)
  case Nil
  with assms(2) have "be32toh blob d = TokenEndNode"
    by (intro stored_token) (simp_all add: TokenEndNode_def)
  then show ?thesis by (simp add: TokenEndNode_def TokenProperty_def)
next
  case (Cons c cs')
  obtain nm props chs where c: "c = Node nm props chs" by (cases c)
  with Cons assms(1) have "stored (byte_at blob) d (htobe32 TokenBeginNode)" by simp
  then have "be32toh blob d = TokenBeginNode"
    by (rule stored_token) (simp add: TokenBeginNode_def)
  then show ?thesis by (simp add: TokenBeginNode_def TokenProperty_def)
qed

lemma read_node:
  "enc_node (byte_at blob) (length blob) sb ds dstr n \<Longrightarrow>
   be32toh blob strings_offset_field = sb \<Longrightarrow> length blob < 2 ^ 32 \<Longrightarrow> wf_node n \<Longrightarrow>
   fdt_unflatten_node blob ds = (struct_len n, Some n)"
proof (induction n arbitrary: ds dstr)
  case (Node nm props chs)
  let ?d1 = "ds + 4 + size32 (length nm + 1) * 4"
  let ?d2 = "?d1 + props_struct_len props"
  let ?d3 = "?d2 + sum_list (map struct_len chs)"
  from Node.prems(1) have e:
    "stored (byte_at blob) ds (htobe32 TokenBeginNode)"
    "stored (byte_at blob) (ds + 4) (map of_char nm @ [0])"
    "enc_props (byte_at blob) (length blob) sb ?d1 dstr props"
    "enc_nodes (byte_at blob) (length blob) sb ?d2 (dstr + props_strings_len props) chs"
    "stored (byte_at blob) ?d3 (htobe32 TokenEndNode)"
    by simp_all
  from Node.prems(4) have wf: "nul_free nm" "list_all wf_prop props" "list_all wf_node chs"
    by simp_all
  have children: "unflatten_children blob d (length acc) acc =
      (d + sum_list (map struct_len cs), acc @ cs)"
    if "set cs \<subseteq> set chs" "enc_nodes (byte_at blob) (length blob) sb d t cs"
      "list_all wf_node cs"
      "be32toh blob (d + sum_list (map struct_len cs)) \<noteq> TokenBeginNode"
    for cs d t acc
    using that
  proof (induction cs arbitrary: d t acc)
    case Nil
    then have "fdt_node_name blob d = (0, None)" by (simp add: fdt_node_name_def)
    then have "fdt_unflatten_node blob d = (0, None)"
      by (subst fdt_unflatten_node.simps) simp
    then show ?case by (subst unflatten_children.simps) simp
  next
    case (Cons c cs)
    then have c: "c \<in> set chs" and cs: "set cs \<subseteq> set chs"
      and ec: "enc_node (byte_at blob) (length blob) sb d t c"
        "enc_nodes (byte_at blob) (length blob) sb (d + struct_len c) (t + strings_len c) cs"
      and wfc: "wf_node c" "list_all wf_node cs"
      and stop: "be32toh blob (d + struct_len c + sum_list (map struct_len cs)) \<noteq> TokenBeginNode"
      by (simp_all add: add.assoc)
    have un: "fdt_unflatten_node blob d = (struct_len c, Some c)"
      using c ec(1) Node.prems(2,3) wfc(1) by (rule Node.IH)
    from Cons.IH [OF cs ec(2) wfc(2) stop, of "acc @ [c]"]
    have "unflatten_children blob (d + struct_len c) (Suc (length acc)) (acc @ [c]) =
        (d + struct_len c + sum_list (map struct_len cs), acc @ c # cs)" by simp
    with un struct_len_pos [of c] show ?case
      by (subst unflatten_children.simps) (simp add: Let_def list_insert_after_end add.assoc)
  qed
  have tok: "be32toh blob ds = TokenBeginNode"
    using e(1) by (rule stored_token) (simp add: TokenBeginNode_def)
  note str = stored_string [OF e(2) wf(1)]
  have nn: "fdt_node_name blob ds = (size32 (length nm + 1) * 4 + 4, Some nm)"
    by (simp add: fdt_node_name_def tok str)
  have stop1: "be32toh blob (?d1 + props_struct_len props) \<noteq> TokenProperty"
    using e(4,5) by (rule enc_nodes_next_token)
  have ps: "unflatten_props blob ?d1 0 [] = (?d2, props)"
    using read_props [OF e(3) Node.prems(2,3) wf(2) stop1, of "[]"] by simp
  have "be32toh blob ?d3 = TokenEndNode"
    using e(5) by (rule stored_token) (simp add: TokenEndNode_def)
  then have stop2: "be32toh blob (?d2 + sum_list (map struct_len chs)) \<noteq> TokenBeginNode"
    by (simp add: TokenEndNode_def TokenBeginNode_def)
  have cs: "unflatten_children blob ?d2 0 [] = (?d3, chs)"
    using children [OF subset_refl e(4) wf(3) stop2, of "[]"] by simp
  have d1: "ds + (size32 (length nm + 1) * 4 + 4) = ?d1" by simp
  show ?case
    by (subst fdt_unflatten_node.simps)
      (simp only: nn prod.case Let_def d1 alloc_node_def DeviceTreeNode.sel ps cs option.sel, simp)
qed

lemma agrees_frame:
  "agrees n m' s s' t t' \<Longrightarrow> writes_within m m' a a' b b' \<Longrightarrow>
   s' \<le> a \<or> a' \<le> s \<Longrightarrow> s' \<le> b \<or> b' \<le> s \<Longrightarrow> t' \<le> a \<or> a' \<le> t \<Longrightarrow> t' \<le> b \<or> b' \<le> t \<Longrightarrow>
   agrees n m s s' t t'"
proof -
  assume ag: "agrees n m' s s' t t'" and ww: "writes_within m m' a a' b b'"
    and d: "s' \<le> a \<or> a' \<le> s" "s' \<le> b \<or> b' \<le> s" "t' \<le> a \<or> a' \<le> t" "t' \<le> b \<or> b' \<le> t"
  show ?thesis
    unfolding agrees_def
  proof (intro allI impI)
    fix i assume i: "(s \<le> i \<and> i < s') \<or> (t \<le> i \<and> i < t')"
    with ag have "n i = m' i" by (auto simp: agrees_def)
    moreover from i d have "\<not> (a \<le> i \<and> i < a')" "\<not> (b \<le> i \<and> i < b')" by linarith+
    with ww have "m' i = m i" by (simp add: writes_within_def)
    ultimately show "n i = m i" by simp
  qed
qed

lemma agrees_mono:
  "agrees n m s0 s1 t0 t1 \<Longrightarrow> s0 \<le> s \<Longrightarrow> s' \<le> s1 \<Longrightarrow> t0 \<le> t \<Longrightarrow> t' \<le> t1 \<Longrightarrow>
   agrees n m s s' t t'"
proof -
  assume ag: "agrees n m s0 s1 t0 t1" and b: "s0 \<le> s" "s' \<le> s1" "t0 \<le> t" "t' \<le> t1"
  show ?thesis
    unfolding agrees_def
  proof (intro allI impI)
    fix i assume "(s \<le> i \<and> i < s') \<or> (t \<le> i \<and> i < t')"
    with b have "(s0 \<le> i \<and> i < s1) \<or> (t0 \<le> i \<and> i < t1)" by linarith
    with ag show "n i = m i" by (auto simp: agrees_def)
  qed
qed

lemma nat_int_mod: "nat (int x mod int m) = x mod m"
  by (simp only: zmod_int [symmetric] nat_int)

lemma name_offset_diff:
  assumes "sb \<le> (dstr :: nat)"
  shows "nat ((int dstr - int sb) mod 2 ^ 32) = (dstr - sb) mod 2 ^ 32"
proof -
  have p: "(2 ^ 32 :: int) = int (2 ^ 32)"
    by (simp only: of_nat_power of_nat_numeral)
  from assms have "int dstr - int sb = int (dstr - sb)" by (simp only: of_nat_diff)
  then show ?thesis by (simp only: p nat_int_mod)
qed

lemma write_prop:
  assumes fl: "dt_flatten_prop p sb (m, ds, dstr) = (m', ds', dstr')"
    and ag: "agrees n m' ds (ds + prop_struct_len p) dstr (dstr + (length (prop_name p) + 1))"
    and sep: "ds + prop_struct_len p \<le> sb" "sb \<le> dstr"
    and len: "dstr + (length (prop_name p) + 1) \<le> len" "len < 2 ^ 32"
    and wf: "wf_prop p"
  shows "enc_prop n len sb ds dstr p"
proof -
  from wf have dl: "length (prop_data p) = prop_size p" by (simp add: wf_prop_def)
  note pad = size32_bound [of "prop_size p"]
  note noff = name_offset_diff [OF sep(2)]
  have m': "m' = memcpy (strcpy (put_bytes (put_bytes (put_bytes m ds (htobe32 TokenProperty))
      (ds + 4) (htobe32 (prop_size p))) (ds + 4 + 4) (htobe32 ((dstr - sb) mod 2 ^ 32)))
      dstr (prop_name p)) (ds + 4 + 4 + 4) (prop_data p) (prop_size p)"
    using fl [unfolded dt_flatten_prop_def Let_def prod.case noff] by simp
  have n_struct: "n i = m' i" if "ds \<le> i" "i < ds + prop_struct_len p" for i
    using ag that by (simp add: agrees_def)
  have n_str: "n i = m' i" if "dstr \<le> i" "i < dstr + (length (prop_name p) + 1)" for i
    using ag that by (simp add: agrees_def)
  have 1: "stored n ds (htobe32 TokenProperty)"
    unfolding stored_iff
  proof (intro allI impI)
    fix j assume "j < length (htobe32 TokenProperty)"
    then have j: "j < 4" by simp
    then have "n (ds + j) = m' (ds + j)" by (intro n_struct) (simp_all add: prop_struct_len_def)
    also have "\<dots> = htobe32 TokenProperty ! j"
      using j sep by (simp add: m' memcpy_def strcpy_def put_bytes_def prop_struct_len_def)
    finally show "n (ds + j) = htobe32 TokenProperty ! j" .
  qed
  have 2: "stored n (ds + 4) (htobe32 (prop_size p))"
    unfolding stored_iff
  proof (intro allI impI)
    fix j assume "j < length (htobe32 (prop_size p))"
    then have j: "j < 4" by simp
    then have "n (ds + 4 + j) = m' (ds + 4 + j)"
      by (intro n_struct) (simp_all add: prop_struct_len_def)
    also have "\<dots> = htobe32 (prop_size p) ! j"
      using j sep by (simp add: m' memcpy_def strcpy_def put_bytes_def prop_struct_len_def)
    finally show "n (ds + 4 + j) = htobe32 (prop_size p) ! j" .
  qed
  have 3: "stored n (ds + 8) (htobe32 ((dstr - sb) mod 2 ^ 32))"
    unfolding stored_iff
  proof (intro allI impI)
    fix j assume "j < length (htobe32 ((dstr - sb) mod 2 ^ 32))"
    then have j: "j < 4" by simp
    then have "n (ds + 8 + j) = m' (ds + 8 + j)"
      by (intro n_struct) (simp_all add: prop_struct_len_def)
    also have "\<dots> = htobe32 ((dstr - sb) mod 2 ^ 32) ! j"
      using j sep by (simp add: m' memcpy_def strcpy_def put_bytes_def prop_struct_len_def)
    finally show "n (ds + 8 + j) = htobe32 ((dstr - sb) mod 2 ^ 32) ! j" .
  qed
  have 4: "stored n (ds + 12) (prop_data p)"
    unfolding stored_iff
  proof (intro allI impI)
    fix j assume j: "j < length (prop_data p)"
    with dl pad have "n (ds + 12 + j) = m' (ds + 12 + j)"
      by (intro n_struct) (simp_all add: prop_struct_len_def)
    also have "\<dots> = prop_data p ! j"
      using j dl by (simp add: m' memcpy_def put_bytes_def byte_at_def)
    finally show "n (ds + 12 + j) = prop_data p ! j" .
  qed
  have 5: "stored n dstr (map of_char (prop_name p) @ [0])"
    unfolding stored_iff
  proof (intro allI impI)
    fix j assume "j < length (map of_char (prop_name p) @ [0 :: byte])"
    then have j: "j < length (prop_name p) + 1" by simp
    then have "n (dstr + j) = m' (dstr + j)" by (intro n_str) simp_all
    also have "\<dots> = (map of_char (prop_name p) @ [0]) ! j"
      using j sep pad by (simp add: m' memcpy_def strcpy_def put_bytes_def prop_struct_len_def)
    finally show "n (dstr + j) = (map of_char (prop_name p) @ [0]) ! j" .
  qed
  from 1 2 3 4 5 sep len(1) show ?thesis
    by (simp add: enc_prop_def)
qed


lemma write_props:
  "fold (\<lambda>prop st. dt_flatten_prop prop sb st) ps (m, ds, dstr) = (m', ds', dstr') \<Longrightarrow>
   agrees n m' ds (ds + props_struct_len ps) dstr (dstr + props_strings_len ps) \<Longrightarrow>
   ds + props_struct_len ps \<le> sb \<Longrightarrow> sb \<le> dstr \<Longrightarrow>
   dstr + props_strings_len ps \<le> len \<Longrightarrow> list_all wf_prop ps \<Longrightarrow> len < 2 ^ 32 \<Longrightarrow>
   enc_props n len sb ds dstr ps"
proof (induction ps arbitrary: m ds dstr m' ds' dstr')
  case Nil
  then show ?case by simp
next
  case (Cons p ps)
  let ?s1 = "ds + prop_struct_len p"
  let ?t1 = "dstr + (length (prop_name p) + 1)"
  note b = Cons.prems(3,4,5) [unfolded props_struct_len_Cons props_strings_len_Cons]
  from b Cons.prems(7) have small: "prop_struct_len p < 2 ^ 32" "props_struct_len ps < 2 ^ 32"
    by simp_all
  from dt_flatten_prop_cursor [OF small(1), of sb m ds dstr] obtain m1 where
    m1: "dt_flatten_prop p sb (m, ds, dstr) = (m1, ?s1, ?t1)" by blast
  from fold_flatten_prop_cursor [OF small(2), of sb m1 ?s1 ?t1] obtain m2 where
    m2: "fold (\<lambda>prop st. dt_flatten_prop prop sb st) ps (m1, ?s1, ?t1) =
           (m2, ?s1 + props_struct_len ps, ?t1 + props_strings_len ps)"
        "writes_within m1 m2 ?s1 (?s1 + props_struct_len ps) ?t1 (?t1 + props_strings_len ps)"
    by blast
  from Cons.prems(1) m1 m2(1) have m': "m' = m2" by simp
  from Cons.prems(2) have ag: "agrees n m2 ds (?s1 + props_struct_len ps) dstr (?t1 + props_strings_len ps)"
    by (simp add: m' props_struct_len_Cons props_strings_len_Cons add.assoc)
  have a2: "agrees n m2 ds ?s1 dstr ?t1"
    using ag by (rule agrees_mono) simp_all
  have "agrees n m1 ds ?s1 dstr ?t1"
    by (rule agrees_frame [OF a2 m2(2)]) (use b in simp_all)
  then have 1: "enc_prop n len sb ds dstr p"
    by (rule write_prop [OF m1]) (use b Cons.prems(6,7) in simp_all)
  have "agrees n m2 ?s1 (?s1 + props_struct_len ps) ?t1 (?t1 + props_strings_len ps)"
    using ag by (rule agrees_mono) simp_all
  then have 2: "enc_props n len sb ?s1 ?t1 ps"
    by (rule Cons.IH [OF m2(1)]) (use b Cons.prems(6,7) in \<open>simp_all add: add.assoc\<close>)
  from 1 2 show ?case by simp
qed


lemma write_node:
  "dt_flatten_node nd sb (m, ds, dstr) = (m', ds', dstr') \<Longrightarrow>
   agrees n m' ds (ds + struct_len nd) dstr (dstr + strings_len nd) \<Longrightarrow>
   ds + struct_len nd \<le> sb \<Longrightarrow> sb \<le> dstr \<Longrightarrow>
   dstr + strings_len nd \<le> len \<Longrightarrow> wf_node nd \<Longrightarrow> len < 2 ^ 32 \<Longrightarrow>
   enc_node n len sb ds dstr nd"
proof (induction nd arbitrary: m ds dstr m' ds' dstr')
  case (Node nm props chs)
  let ?m1 = "strcpy (put_bytes m ds (htobe32 TokenBeginNode)) (ds + 4) nm"
  let ?d1 = "ds + 4 + size32 (length nm + 1) * 4"
  let ?d2 = "?d1 + props_struct_len props"
  let ?d3 = "?d2 + sum_list (map struct_len chs)"
  let ?t2 = "dstr + props_strings_len props"
  let ?t3 = "?t2 + sum_list (map strings_len chs)"
  note pad = size32_bound [of "length nm + 1"]
  from Node.prems(3,4,5) have b: "?d3 + 4 \<le> sb" "sb \<le> dstr" "?t3 \<le> len"
    by (simp_all add: add.assoc)
  from Node.prems(6) have wf: "nul_free nm" "list_all wf_prop props" "list_all wf_node chs"
    by simp_all
  from Node.prems(3,4,5,7) have nsmall: "struct_len (Node nm props chs) < 2 ^ 32" by simp
  have small: "struct_len c < 2 ^ 32" if "c \<in> set chs" for c
    using struct_len_child [OF that, of nm props] nsmall by simp
  note nm = struct_len_name [OF nsmall]
  from nsmall have psmall: "props_struct_len props < 2 ^ 32" by simp
  from fold_flatten_prop_cursor [OF psmall, of sb ?m1 ?d1 dstr] obtain m2 where
    m2: "fold (\<lambda>prop st. dt_flatten_prop prop sb st) props (?m1, ?d1, dstr) = (m2, ?d2, ?t2)"
        "writes_within ?m1 m2 ?d1 ?d2 dstr ?t2"
    by blast
  have chs_cursor: "\<exists>mem'. fold (\<lambda>child st. dt_flatten_node child sb st) cs (ma, s, t) =
        (mem', s + sum_list (map struct_len cs), t + sum_list (map strings_len cs)) \<and>
      writes_within ma mem' s (s + sum_list (map struct_len cs)) t (t + sum_list (map strings_len cs))"
    if "set cs \<subseteq> set chs" for cs ma s t
  proof (rule fold_flatten_node_cursor)
    fix c mem ds dstr assume "c \<in> set cs"
    with that have "c \<in> set chs" by auto
    from dt_flatten_node_cursor [OF small [OF this]]
    show "\<exists>mem'. dt_flatten_node c sb (mem, ds, dstr) =
        (mem', ds + struct_len c, dstr + strings_len c) \<and>
        writes_within mem mem' ds (ds + struct_len c) dstr (dstr + strings_len c)" .
  qed
  from chs_cursor [OF subset_refl, of m2 ?d2 ?t2] obtain m3 where
    m3: "fold (\<lambda>child st. dt_flatten_node child sb st) chs (m2, ?d2, ?t2) = (m3, ?d3, ?t3)"
        "writes_within m2 m3 ?d2 ?d3 ?t2 ?t3" by blast
  let ?m4 = "put_bytes m3 ?d3 (htobe32 TokenEndNode)"
  have w4: "writes_within m3 ?m4 ?d3 (?d3 + 4) ?t3 ?t3"
    by (auto simp: writes_within_def put_bytes_def)
  have res: "dt_flatten_node (Node nm props chs) sb (m, ds, dstr) = (?m4, ?d3 + 4, ?t3)"
    by (simp only: dt_flatten_node.simps Let_def nm m2(1) prod.case m3(1))
  with Node.prems(1) have m': "m' = ?m4" by simp
  from Node.prems(2) have ag: "agrees n ?m4 ds (?d3 + 4) dstr ?t3"
    by (simp add: m' add.assoc)
  have ag3: "agrees n m3 ds ?d3 dstr ?t3"
    by (rule agrees_frame [OF agrees_mono [OF ag] w4]) (use b in simp_all)
  have ag2: "agrees n m2 ds ?d2 dstr ?t2"
    by (rule agrees_frame [OF agrees_mono [OF ag3] m3(2)]) (use b in simp_all)
  have ag1: "agrees n ?m1 ds ?d1 dstr dstr"
    by (rule agrees_frame [OF agrees_mono [OF ag2] m2(2)]) (use b in simp_all)
  have 1: "stored n ds (htobe32 TokenBeginNode)"
    unfolding stored_iff
  proof (intro allI impI)
    fix j assume "j < length (htobe32 TokenBeginNode)"
    then have j: "j < 4" by simp
    with ag1 have "n (ds + j) = ?m1 (ds + j)" by (simp add: agrees_def)
    also have "\<dots> = htobe32 TokenBeginNode ! j"
      using j by (simp add: strcpy_def put_bytes_def)
    finally show "n (ds + j) = htobe32 TokenBeginNode ! j" .
  qed
  have 2: "stored n (ds + 4) (map of_char nm @ [0])"
    unfolding stored_iff
  proof (intro allI impI)
    fix j assume "j < length (map of_char nm @ [0 :: byte])"
    then have j: "j < length nm + 1" by simp
    with ag1 pad have "n (ds + 4 + j) = ?m1 (ds + 4 + j)" by (simp add: agrees_def)
    also have "\<dots> = (map of_char nm @ [0]) ! j"
      using j by (simp add: strcpy_def put_bytes_def)
    finally show "n (ds + 4 + j) = (map of_char nm @ [0]) ! j" .
  qed
  have 3: "enc_props n len sb ?d1 dstr props"
    by (rule write_props [OF m2(1) agrees_mono [OF ag2]]) (use b wf Node.prems(7) in simp_all)
  have children: "enc_nodes n len sb s t cs"
    if "set cs \<subseteq> set chs" "list_all wf_node cs"
      "fold (\<lambda>child st. dt_flatten_node child sb st) cs (ma, s, t) = (mz, sz, tz)"
      "agrees n mz s (s + sum_list (map struct_len cs)) t (t + sum_list (map strings_len cs))"
      "s + sum_list (map struct_len cs) \<le> sb" "sb \<le> t"
      "t + sum_list (map strings_len cs) \<le> len"
    for cs ma s t mz sz tz
    using that
  proof (induction cs arbitrary: ma s t)
    case Nil
    then show ?case by simp
  next
    case (Cons c cs)
    let ?s1 = "s + struct_len c"
    let ?t1 = "t + strings_len c"
    from Cons.prems have c: "c \<in> set chs" and cs: "set cs \<subseteq> set chs"
      and wfc: "wf_node c" "list_all wf_node cs" by simp_all
    from dt_flatten_node_cursor [OF small [OF c], of sb ma s t] obtain mb where
      mb: "dt_flatten_node c sb (ma, s, t) = (mb, ?s1, ?t1)" by blast
    from chs_cursor [OF cs, of mb ?s1 ?t1] obtain mc where
      mc: "fold (\<lambda>child st. dt_flatten_node child sb st) cs (mb, ?s1, ?t1) =
            (mc, ?s1 + sum_list (map struct_len cs), ?t1 + sum_list (map strings_len cs))"
          "writes_within mb mc ?s1 (?s1 + sum_list (map struct_len cs))
             ?t1 (?t1 + sum_list (map strings_len cs))" by blast
    from Cons.prems(3) mb mc(1) have mz: "mz = mc" "sz = ?s1 + sum_list (map struct_len cs)"
      "tz = ?t1 + sum_list (map strings_len cs)" by simp_all
    from Cons.prems(5,6,7) have bb: "?s1 + sum_list (map struct_len cs) \<le> sb" "sb \<le> t"
      "?t1 + sum_list (map strings_len cs) \<le> len" by (simp_all add: add.assoc)
    from Cons.prems(4) have agc: "agrees n mc s (?s1 + sum_list (map struct_len cs)) t
        (?t1 + sum_list (map strings_len cs))" by (simp add: mz add.assoc)
    have "agrees n mb s ?s1 t ?t1"
      by (rule agrees_frame [OF agrees_mono [OF agc] mc(2)]) (use bb in simp_all)
    then have 1: "enc_node n len sb s t c"
      by (rule Node.IH [OF c mb]) (use bb wfc Node.prems(7) in simp_all)
    have 2: "enc_nodes n len sb ?s1 ?t1 cs"
      by (rule Cons.IH [OF cs wfc(2) mc(1) [folded mz] _ ])
        (use bb agc mz in \<open>auto intro: agrees_mono\<close>)
    from 1 2 show ?case by simp
  qed
  have 4: "enc_nodes n len sb ?d2 ?t2 chs"
    by (rule children [OF subset_refl wf(3) m3(1) agrees_mono [OF ag3]]) (use b in simp_all)
  have 5: "stored n ?d3 (htobe32 TokenEndNode)"
    unfolding stored_iff
  proof (intro allI impI)
    fix j assume "j < length (htobe32 TokenEndNode)"
    then have j: "j < 4" by simp
    with ag have "n (?d3 + j) = ?m4 (?d3 + j)" by (simp add: agrees_def)
    also have "\<dots> = htobe32 TokenEndNode ! j"
      using j by (simp add: put_bytes_def)
    finally show "n (?d3 + j) = htobe32 TokenEndNode ! j" .
  qed
  from 1 2 3 4 5 show ?case by simp
qed

lemma length_htobe64 [simp]: "length (htobe64 v) = 8"
  by (simp add: htobe64_def)

lemma be64toh_stored:
  assumes "stored (byte_at blob) off (htobe64 v)"
  shows "be64toh blob off = v"
proof -
  have lt: "unat v < 2 ^ 64" using unsigned_less [of v] by simp
  from assms have a: "\<And>j. j < 4 \<Longrightarrow> byte_at blob (off + j) = htobe32 (unat v div 2 ^ 32) ! j"
    and b: "\<And>j. j < 4 \<Longrightarrow> byte_at blob (off + 4 + j) = htobe32 (unat v) ! j"
  proof -
    fix j :: nat assume j: "j < 4"
    from assms have s: "\<And>i. i < 8 \<Longrightarrow> byte_at blob (off + i) = htobe64 v ! i"
      by (simp add: stored_iff)
    from s [of j] j show "byte_at blob (off + j) = htobe32 (unat v div 2 ^ 32) ! j"
      by (simp add: htobe64_def nth_append)
    from s [of "4 + j"] j show "byte_at blob (off + 4 + j) = htobe32 (unat v) ! j"
      by (simp add: htobe64_def nth_append add.assoc)
  qed
  have hi: "be32toh blob off = (unat v div 2 ^ 32) mod 2 ^ 32"
    by (rule be32toh_stored) (rule a)
  have lo: "be32toh blob (off + 4) = unat v mod 2 ^ 32"
    by (rule be32toh_stored) (rule b)
  from lt have "unat v div 2 ^ 32 < 2 ^ 32" by (simp add: less_mult_imp_div_less)
  then have "(unat v div 2 ^ 32) mod 2 ^ 32 = unat v div 2 ^ 32" by simp
  with hi lo have "be32toh blob off * 2 ^ 32 + be32toh blob (off + 4) = unat v"
    by simp
  then show ?thesis by (simp only: be64toh_def) simp
qed

lemma be64toh_zero:
  assumes "stored (byte_at blob) off (replicate 8 0)"
  shows "be64toh blob off = 0"
proof -
  have "replicate 8 (0 :: byte) = [0, 0, 0, 0, 0, 0, 0, 0]"
    by (simp add: numeral_eq_Suc)
  moreover have "htobe64 0 = [0, 0, 0, 0, 0, 0, 0, 0]"
    by (simp add: htobe64_def htobe32_def)
  ultimately have "htobe64 0 = replicate 8 0" by simp
  with assms have "stored (byte_at blob) off (htobe64 0)" by simp
  then show ?thesis by (rule be64toh_stored)
qed

lemma reserve_entry_eta:
  "\<lparr>entry_start = entry_start e, entry_size = entry_size e\<rparr> = (e :: DeviceTreeReserveMapEntry)"
  by (cases e) simp

lemma read_map:
  "enc_map (byte_at blob) off rm \<Longrightarrow> list_all (\<lambda>e. entry_size e \<noteq> 0) rm \<Longrightarrow>
   unflatten_reserve_map blob off (length acc) acc = acc @ rm"
proof (induction rm arbitrary: off acc)
  case Nil
  then have "stored (byte_at blob) (off + 8) (replicate 8 0)"
    by (simp add: stored_iff add.assoc)
  then have "be64toh blob (off + 8) = 0" by (rule be64toh_zero)
  then show ?case
    by (subst unflatten_reserve_map.simps) (simp add: fdt_unflatten_map_entry_def Let_def)
next
  case (Cons e rm)
  then have st: "be64toh blob off = entry_start e" and sz: "be64toh blob (off + 8) = entry_size e"
    and nz: "entry_size e \<noteq> 0" and rest: "enc_map (byte_at blob) (off + 16) rm"
    "list_all (\<lambda>e. entry_size e \<noteq> 0) rm"
    by (simp_all add: be64toh_stored)
  from Cons.IH [OF rest, of "acc @ [e]"]
  have "unflatten_reserve_map blob (off + 16) (Suc (length acc)) (acc @ [e]) = acc @ e # rm"
    by simp
  then show ?case
    by (subst unflatten_reserve_map.simps)
      (simp add: fdt_unflatten_map_entry_def Let_def st sz nz list_insert_after_end reserve_entry_eta)
qed

lemma write_map:
  "fold dt_flatten_map_entry rm (m, d) = (m1, d1) \<Longrightarrow>
   (\<forall>i. d \<le> i \<and> i < d + 16 * length rm + 16 \<longrightarrow> n i = put_bytes m1 d1 (replicate 16 0) i) \<Longrightarrow>
   enc_map n d rm"
proof (induction rm arbitrary: m d)
  case Nil
  then show ?case by (simp add: stored_iff put_bytes_def)
next
  case (Cons e rm)
  let ?m' = "put_bytes (put_bytes m d (htobe64 (entry_start e))) (d + 8) (htobe64 (entry_size e))"
  have e: "dt_flatten_map_entry e (m, d) = (?m', d + 16)"
    by (simp add: dt_flatten_map_entry_def Let_def)
  from fold_flatten_map_entry_cursor [of rm ?m' "d + 16"] obtain m2 where
    m2: "fold dt_flatten_map_entry rm (?m', d + 16) = (m2, d + 16 + 16 * length rm)"
        "\<forall>i. i < d + 16 \<or> d + 16 + 16 * length rm \<le> i \<longrightarrow> m2 i = ?m' i" by blast
  from Cons.prems(1) e m2(1) have eq: "m1 = m2" "d1 = d + 16 + 16 * length rm" by simp_all
  have first: "n (d + j) = ?m' (d + j)" if "j < 16" for j
  proof -
    from that Cons.prems(2) have "n (d + j) = put_bytes m1 d1 (replicate 16 0) (d + j)" by simp
    also from that have "\<dots> = m1 (d + j)" by (simp add: put_bytes_def eq)
    also from that m2(2) have "\<dots> = ?m' (d + j)" by (simp add: eq)
    finally show ?thesis .
  qed
  have 1: "stored n d (htobe64 (entry_start e))"
    unfolding stored_iff
  proof (intro allI impI)
    fix j assume "j < length (htobe64 (entry_start e))"
    then have j: "j < 8" by simp
    then show "n (d + j) = htobe64 (entry_start e) ! j"
      using first [of j] by (simp add: put_bytes_def)
  qed
  have 2: "stored n (d + 8) (htobe64 (entry_size e))"
    unfolding stored_iff
  proof (intro allI impI)
    fix j assume "j < length (htobe64 (entry_size e))"
    then have j: "j < 8" by simp
    then show "n (d + 8 + j) = htobe64 (entry_size e) ! j"
      using first [of "8 + j"] by (simp add: put_bytes_def add.assoc)
  qed
  have 3: "enc_map n (d + 16) rm"
    by (rule Cons.IH [OF m2(1) [folded eq]]) (use Cons.prems(2) in \<open>simp add: add.assoc\<close>)
  from 1 2 3 show ?case by simp
qed

text \<open>The memory \<^verbatim>\<open>dt_flatten\<close> leaves behind, write by write.\<close>

lemma dt_flatten_layout:
  assumes "root tree = Some root_node" and "flat_len tree root_node < 2 ^ 32"
  defines "hs \<equiv> header_size tree"
    and "ss \<equiv> header_size tree + 16 * length (reserve_map tree) + 16"
    and "sb \<equiv> header_size tree + 16 * length (reserve_map tree) + 16 + struct_len root_node + 4"
  shows "\<exists>m1 m8.
      fold dt_flatten_map_entry (reserve_map tree) (memcpy mem 0 (header tree) hs, hs) =
        (m1, hs + 16 * length (reserve_map tree)) \<and>
      (\<forall>i. i < hs \<or> hs + 16 * length (reserve_map tree) \<le> i \<longrightarrow>
           m1 i = memcpy mem 0 (header tree) hs i) \<and>
      writes_within
        (put_bytes (put_bytes (put_bytes (put_bytes (put_bytes
           (put_bytes m1 (hs + 16 * length (reserve_map tree)) (replicate 16 0))
           structure_offset_field (htobe32 ss))
           structure_size_field (htobe32 (struct_len root_node)))
           (ss + struct_len root_node) (htobe32 TokenEnd))
           strings_offset_field (htobe32 sb))
           strings_size_field (htobe32 (strings_len root_node)))
        m8 ss (ss + struct_len root_node) sb (sb + strings_len root_node) \<and>
      dt_flatten_node root_node sb
        (put_bytes (put_bytes (put_bytes (put_bytes (put_bytes
           (put_bytes m1 (hs + 16 * length (reserve_map tree)) (replicate 16 0))
           structure_offset_field (htobe32 ss))
           structure_size_field (htobe32 (struct_len root_node)))
           (ss + struct_len root_node) (htobe32 TokenEnd))
           strings_offset_field (htobe32 sb))
           strings_size_field (htobe32 (strings_len root_node)), ss, sb) =
        (m8, ss + struct_len root_node, sb + strings_len root_node) \<and>
      dt_flatten tree mem =
        Some (put_bytes m8 totalsize_field (htobe32 (sb + strings_len root_node)))"
proof -
  let ?hs = "header_size tree"
  let ?k = "length (reserve_map tree)"
  let ?sl = "struct_len root_node"
  let ?tl = "strings_len root_node"
  note sz = dt_flat_size_len(2) [OF assms(1,2)]
  let ?m0 = "memcpy mem 0 (header tree) ?hs"
  from fold_flatten_map_entry_cursor [of "reserve_map tree" ?m0 ?hs] obtain m1 where
    m1: "fold dt_flatten_map_entry (reserve_map tree) (?m0, ?hs) = (m1, ?hs + 16 * ?k)"
        "\<forall>i. i < ?hs \<or> ?hs + 16 * ?k \<le> i \<longrightarrow> m1 i = ?m0 i" by blast
  let ?m2 = "put_bytes m1 (?hs + 16 * ?k) (replicate 16 0)"
  let ?m3 = "put_bytes ?m2 structure_offset_field (htobe32 (?hs + 16 * ?k + 16))"
  let ?m4 = "put_bytes ?m3 structure_size_field (htobe32 ?sl)"
  let ?m5 = "put_bytes ?m4 (?hs + 16 * ?k + 16 + ?sl) (htobe32 TokenEnd)"
  let ?m6 = "put_bytes ?m5 strings_offset_field (htobe32 (?hs + 16 * ?k + 16 + ?sl + 4))"
  let ?m7 = "put_bytes ?m6 strings_size_field (htobe32 ?tl)"
  from assms(2) have small: "struct_len root_node < 2 ^ 32" by (simp add: flat_len_def)
  from dt_flatten_node_cursor [OF small, of "?hs + 16 * ?k + 16 + ?sl + 4" ?m7 "?hs + 16 * ?k + 16"
      "?hs + 16 * ?k + 16 + ?sl + 4"] obtain m8 where
    m8: "dt_flatten_node root_node (?hs + 16 * ?k + 16 + ?sl + 4)
           (?m7, ?hs + 16 * ?k + 16, ?hs + 16 * ?k + 16 + ?sl + 4) =
           (m8, ?hs + 16 * ?k + 16 + ?sl, ?hs + 16 * ?k + 16 + ?sl + 4 + ?tl)"
        "writes_within ?m7 m8 (?hs + 16 * ?k + 16) (?hs + 16 * ?k + 16 + ?sl)
           (?hs + 16 * ?k + 16 + ?sl + 4) (?hs + 16 * ?k + 16 + ?sl + 4 + ?tl)" by blast
  have res: "dt_flatten tree mem =
      Some (put_bytes m8 totalsize_field (htobe32 (?hs + 16 * ?k + 16 + ?sl + 4 + ?tl)))"
    unfolding dt_flatten_def
    by (simp only: assms(1) option.case Let_def add_0 m1(1) prod.case sz m8(1))
  show ?thesis
    unfolding hs_def ss_def sb_def
    apply (rule exI [of _ m1], rule exI [of _ m8])
    apply (intro conjI)
        apply (rule m1(1))
       apply (rule m1(2))
      apply (rule m8(2))
     apply (rule m8(1))
    apply (rule res)
    done
qed

lemma length_image_of [simp]: "length (image_of mem n) = n"
  by (simp add: image_of_def)

text \<open>
  Claim C1. Let the tree have a root, let no name in it contain a NUL and the data of
  every property have the length its size field gives, and let every reserve-map entry
  have a non-zero size. Let the preserved header be well formed: it holds
  \<open>header_size\<close> bytes, it covers the \<^verbatim>\<open>FdtHeader\<close> structure, and its
  reserve-map offset is the header size, which is where \<^verbatim>\<open>dt_flatten\<close> puts
  the reserve map. Let the flattened tree fit
  a buffer of \<open>n\<close> bytes, \<open>n\<close> below \<open>2 ^ 31\<close>. Then \<^verbatim>\<open>dt_flatten\<close>
  returns, and \<^verbatim>\<open>fdt_unflatten\<close> of the buffer gives back the same root node (the
  same names, properties with their data and sizes, and children, all in the same
  order), the same reserve-map entries in the same order, and the same header size.
\<close>

theorem dt_flatten_unflatten_roundtrip:
  assumes r: "root tree = Some root_node" and wf: "wf_node root_node"
    and hdr: "sizeof_FdtHeader \<le> header_size tree"
    and rmo: "be32toh (header tree) reserve_map_offset_field = header_size tree"
    and nz: "list_all (\<lambda>e. entry_size e \<noteq> 0) (reserve_map tree)"
    and n: "flat_len tree root_node \<le> n" "n < 2 ^ 31"
    and held: "header_size tree \<le> length (header tree)"
  shows "\<exists>mem'. dt_flatten tree mem = Some mem' \<and>
           root (fdt_unflatten (image_of mem' n)) = Some root_node \<and>
           reserve_map (fdt_unflatten (image_of mem' n)) = reserve_map tree \<and>
           header_size (fdt_unflatten (image_of mem' n)) = header_size tree"
proof -
  let ?hs = "header_size tree"
  let ?k = "length (reserve_map tree)"
  let ?sl = "struct_len root_node"
  let ?tl = "strings_len root_node"
  let ?ss = "?hs + 16 * ?k + 16"
  let ?sb = "?hs + 16 * ?k + 16 + ?sl + 4"
  have total: "flat_len tree root_node = ?sb + ?tl" by (simp add: flat_len_def)
  from n have lt: "flat_len tree root_node < 2 ^ 32" by simp
  from hdr have hs: "40 \<le> ?hs" by (simp add: sizeof_FdtHeader_def)
  from dt_flatten_layout [OF r lt, of mem] obtain m1 m8 where
    m1: "fold dt_flatten_map_entry (reserve_map tree) (memcpy mem 0 (header tree) ?hs, ?hs) =
           (m1, ?hs + 16 * ?k)"
    and m1_frame: "\<forall>i. i < ?hs \<or> ?hs + 16 * ?k \<le> i \<longrightarrow> m1 i = memcpy mem 0 (header tree) ?hs i"
    and m8_frame: "writes_within
        (put_bytes (put_bytes (put_bytes (put_bytes (put_bytes
           (put_bytes m1 (?hs + 16 * ?k) (replicate 16 0))
           structure_offset_field (htobe32 ?ss))
           structure_size_field (htobe32 ?sl))
           (?ss + ?sl) (htobe32 TokenEnd))
           strings_offset_field (htobe32 ?sb))
           strings_size_field (htobe32 ?tl))
        m8 ?ss (?ss + ?sl) ?sb (?sb + ?tl)"
    and m8: "dt_flatten_node root_node ?sb
        (put_bytes (put_bytes (put_bytes (put_bytes (put_bytes
           (put_bytes m1 (?hs + 16 * ?k) (replicate 16 0))
           structure_offset_field (htobe32 ?ss))
           structure_size_field (htobe32 ?sl))
           (?ss + ?sl) (htobe32 TokenEnd))
           strings_offset_field (htobe32 ?sb))
           strings_size_field (htobe32 ?tl), ?ss, ?sb) =
        (m8, ?ss + ?sl, ?sb + ?tl)"
    and res: "dt_flatten tree mem = Some (put_bytes m8 totalsize_field (htobe32 (?sb + ?tl)))"
    by blast
  define m2 where "m2 = put_bytes m1 (?hs + 16 * ?k) (replicate 16 0)"
  define m7 where "m7 = put_bytes (put_bytes (put_bytes (put_bytes (put_bytes m2
           structure_offset_field (htobe32 ?ss))
           structure_size_field (htobe32 ?sl))
           (?ss + ?sl) (htobe32 TokenEnd))
           strings_offset_field (htobe32 ?sb))
           strings_size_field (htobe32 ?tl)"
  define m9 where "m9 = put_bytes m8 totalsize_field (htobe32 (?sb + ?tl))"
  define blob where "blob = image_of m9 n"
  note m8_frame' = m8_frame [folded m2_def, folded m7_def]
  note m8' = m8 [folded m2_def, folded m7_def]
  have len: "length blob = n" by (simp add: blob_def)
  have b9: "byte_at blob i = m9 i" if "i < n" for i
    using that by (simp add: blob_def byte_at_image_of)
  have m98: "m9 i = m8 i" if "8 \<le> i" for i
    using that by (simp add: m9_def put_bytes_def totalsize_field_def)
  have m87: "m8 i = m7 i" if "i < ?ss" for i
    using that m8_frame' by (simp add: writes_within_def)
  have in_n: "?sb + ?tl \<le> n" using n(1) total by simp
  have f8: "byte_at blob (structure_offset_field + j) = htobe32 ?ss ! j" if "j < 4" for j
  proof -
    from that hs in_n have "byte_at blob (structure_offset_field + j) = m7 (structure_offset_field + j)"
      by (simp add: b9 m98 m87 structure_offset_field_def)
    also from that hs have "\<dots> = htobe32 ?ss ! j"
      by (simp add: m7_def put_bytes_def structure_offset_field_def structure_size_field_def
          strings_offset_field_def strings_size_field_def)
    finally show ?thesis .
  qed
  have f12: "byte_at blob (strings_offset_field + j) = htobe32 ?sb ! j" if "j < 4" for j
  proof -
    from that hs in_n have "byte_at blob (strings_offset_field + j) = m7 (strings_offset_field + j)"
      by (simp add: b9 m98 m87 strings_offset_field_def)
    also from that hs have "\<dots> = htobe32 ?sb ! j"
      by (simp add: m7_def put_bytes_def structure_offset_field_def structure_size_field_def
          strings_offset_field_def strings_size_field_def)
    finally show ?thesis .
  qed
  have m72: "m7 i = m2 i" if "16 \<le> i" "i < 32 \<or> 40 \<le> i" "i < ?ss" for i
    using that
    by (auto simp: m7_def put_bytes_def structure_offset_field_def structure_size_field_def
        strings_offset_field_def strings_size_field_def)
  have f16: "byte_at blob (reserve_map_offset_field + j) = byte_at (header tree) (reserve_map_offset_field + j)"
    if "j < 4" for j
  proof -
    from that hs in_n have "byte_at blob (reserve_map_offset_field + j) = m2 (reserve_map_offset_field + j)"
      by (simp add: b9 m98 m87 m72 reserve_map_offset_field_def)
    also from that hs have "\<dots> = m1 (reserve_map_offset_field + j)"
      by (simp add: m2_def put_bytes_def reserve_map_offset_field_def)
    also from that hs m1_frame have "\<dots> = memcpy mem 0 (header tree) ?hs (reserve_map_offset_field + j)"
      by (simp add: reserve_map_offset_field_def)
    also from that hs have "\<dots> = byte_at (header tree) (reserve_map_offset_field + j)"
      by (simp add: memcpy_def put_bytes_def reserve_map_offset_field_def)
    finally show ?thesis .
  qed
  have so: "be32toh blob structure_offset_field = ?ss"
    using be32toh_stored [of blob structure_offset_field ?ss, OF f8] n(2) in_n by simp
  have to: "be32toh blob strings_offset_field = ?sb"
    using be32toh_stored [of blob strings_offset_field ?sb, OF f12] n(2) in_n by simp
  have ro: "be32toh blob reserve_map_offset_field = ?hs"
    using f16 [of 0] f16 [of 1] f16 [of 2] f16 [of 3] rmo by (simp add: be32toh_def)
  have "enc_map (byte_at blob) ?hs (reserve_map tree)"
  proof (rule write_map [OF m1], intro allI impI)
    fix i assume i: "?hs \<le> i \<and> i < ?hs + 16 * ?k + 16"
    with hs in_n have "byte_at blob i = m2 i"
      by (simp add: b9 m98 m87 m72)
    then show "byte_at blob i = put_bytes m1 (?hs + 16 * ?k) (replicate 16 0) i"
      by (simp add: m2_def)
  qed
  from read_map [OF this nz, of "[]"]
  have rm: "unflatten_reserve_map blob ?hs 0 [] = reserve_map tree" by simp
  have ag: "agrees (byte_at blob) m8 ?ss (?ss + ?sl) ?sb (?sb + ?tl)"
    unfolding agrees_def
  proof (intro allI impI)
    fix i assume "?ss \<le> i \<and> i < ?ss + ?sl \<or> ?sb \<le> i \<and> i < ?sb + ?tl"
    with hs in_n have "i < n" "8 \<le> i" by auto
    then show "byte_at blob i = m8 i" by (simp add: b9 m98)
  qed
  have "enc_node (byte_at blob) (length blob) ?sb ?ss ?sb root_node"
    by (rule write_node [OF m8' ag]) (use in_n wf len n(2) in simp_all)
  from read_node [OF this to _ wf] n(2) len
  have nd: "fdt_unflatten_node blob ?ss = (?sl, Some root_node)" by simp
  have "root (fdt_unflatten blob) = Some root_node"
    "reserve_map (fdt_unflatten blob) = reserve_map tree"
    "header_size (fdt_unflatten blob) = ?hs"
    by (simp_all add: fdt_unflatten_def Let_def so to ro rm nd)
  with res show ?thesis by (simp add: blob_def m9_def)
qed

theorem dt_flatten_unflatten_roundtrip_witness:
  "\<exists>mem'. dt_flatten
       \<lparr>header = [0,0,0,0, 0,0,0,0, 0,0,0,0, 0,0,0,0, 0,0,0,40, 0,0,0,0, 0,0,0,0, 0,0,0,0,
                  0,0,0,0, 0,0,0,0],
        header_size = 40,
        reserve_map = [\<lparr>entry_start = 4096, entry_size = 256\<rparr>],
        root = Some (Node [] [\<lparr>prop_name = ''a'', prop_data = [7], prop_size = 1\<rparr>]
                      [Node ''b'' [] []])\<rparr> (\<lambda>i. 0) = Some mem' \<and>
     root (fdt_unflatten (image_of mem' 118)) =
       Some (Node [] [\<lparr>prop_name = ''a'', prop_data = [7], prop_size = 1\<rparr>] [Node ''b'' [] []]) \<and>
     reserve_map (fdt_unflatten (image_of mem' 118)) = [\<lparr>entry_start = 4096, entry_size = 256\<rparr>] \<and>
     header_size (fdt_unflatten (image_of mem' 118)) = 40"
proof -
  let ?r = "Node [] [\<lparr>prop_name = ''a'', prop_data = [7], prop_size = 1\<rparr>] [Node ''b'' [] []]"
  let ?t = "\<lparr>header = [0,0,0,0, 0,0,0,0, 0,0,0,0, 0,0,0,0, 0,0,0,40, 0,0,0,0, 0,0,0,0, 0,0,0,0,
                  0,0,0,0, 0,0,0,0] :: byte list,
        header_size = 40,
        reserve_map = [\<lparr>entry_start = 4096, entry_size = 256\<rparr>],
        root = Some ?r\<rparr>"
  have h: "root ?t = Some ?r" "wf_node ?r" "sizeof_FdtHeader \<le> header_size ?t"
    "be32toh (header ?t) reserve_map_offset_field = header_size ?t"
    "list_all (\<lambda>e. entry_size e \<noteq> 0) (reserve_map ?t)"
    "flat_len ?t ?r \<le> 118" "(118 :: nat) < 2 ^ 31"
    "header_size ?t \<le> length (header ?t)"
    by (simp_all add: wf_prop_def nul_free_def sizeof_FdtHeader_def be32toh_def byte_at_def
        reserve_map_offset_field_def flat_len_def props_struct_len_def prop_struct_len_def
        props_strings_len_def size32_def)
  from dt_flatten_unflatten_roundtrip [OF h, of "\<lambda>i. 0"] show ?thesis by simp
qed




end
